theory Spec2Isabelle
  imports Main "HOL-Library.Sublist"
begin

section \<open>The SASL layer of the transport (proton-c/src/sasl/sasl.c)\<close>

subsection \<open>Data model\<close>

text \<open>
  The enumerators of \<^verbatim>\<open>enum pni_sasl_state\<close> and of \<^verbatim>\<open>pn_sasl_outcome_t\<close>, by the
  names sasl.c uses.
\<close>

datatype pni_sasl_state =
    SASL_NONE
  | SASL_POSTED_INIT
  | SASL_POSTED_RESPONSE
  | SASL_POSTED_MECHANISMS
  | SASL_POSTED_CHALLENGE
  | SASL_POSTED_OUTCOME
  | SASL_PRETEND_OUTCOME
  | SASL_RECVED_OUTCOME

datatype pn_sasl_outcome_t =
    PN_SASL_NONE | PN_SASL_OK | PN_SASL_AUTH | PN_SASL_SYS | PN_SASL_PERM | PN_SASL_TEMP

text \<open>
  sasl.c compares states with \<^verbatim>\<open><\<close> and \<^verbatim>\<open>></\<close>, that is by the integer values of the
  enumerators. The declaration of the enum (sasl-internal.h) is not among the sources,
  so every function that compares states takes the numbering as its first argument
  \<open>ev\<close>; a theorem that needs a fact about the numbering states it as a hypothesis.
\<close>

type_synonym state_value = "pni_sasl_state \<Rightarrow> int"

text \<open>
  Modelled from the spec: the declaration of \<^verbatim>\<open>enum pni_sasl_state\<close> is missing; this
  numbering gives the enumerators the values 0 to 7 in the order in which the data model
  of the spec lists them. It is used where a concrete numbering is needed.
\<close>

fun listed_value :: state_value where
  "listed_value SASL_NONE = 0"
| "listed_value SASL_POSTED_INIT = 1"
| "listed_value SASL_POSTED_RESPONSE = 2"
| "listed_value SASL_POSTED_MECHANISMS = 3"
| "listed_value SASL_POSTED_CHALLENGE = 4"
| "listed_value SASL_POSTED_OUTCOME = 5"
| "listed_value SASL_PRETEND_OUTCOME = 6"
| "listed_value SASL_RECVED_OUTCOME = 7"

text \<open>
  \<^verbatim>\<open>pni_sasl_t\<close>, with the fields the functions below read or write. \<^verbatim>\<open>bytes_out\<close> is
  a \<^verbatim>\<open>pn_bytes_t\<close>, modelled by the bytes it addresses; a \<^verbatim>\<open>char *\<close> that may be NULL is
  a \<open>string option\<close>.
\<close>

record pni_sasl_t =
  client :: bool
  selected_mechanism :: "string option"
  included_mechanisms :: "string option"
  external_auth :: "string option"
  external_ssf :: int
  outcome :: pn_sasl_outcome_t
  bytes_out :: string
  desired_state :: pni_sasl_state
  last_state :: pni_sasl_state

text \<open>
  The SASL frames handed to \<^verbatim>\<open>pn_post_frame\<close>, one constructor per performative, with
  the arguments sasl.c passes.
\<close>

datatype sasl_frame =
    SASL_INIT "string option" string
  | SASL_MECHANISMS "string list"
  | SASL_RESPONSE string
  | SASL_CHALLENGE string
  | SASL_OUTCOME pn_sasl_outcome_t

datatype pn_event_type_t = PN_TRANSPORT

record pn_connection_t =
  collector :: "pn_event_type_t list option"

text \<open>
  What the C leaves undefined is a value of the model: reading through a NULL pointer,
  and reading or writing outside an array.
\<close>

datatype undefined_behaviour = Null_dereference | Out_of_bounds

text \<open>The layer processors a slot of \<^verbatim>\<open>io_layers\<close> can point to.\<close>

datatype pn_io_layer_t =
    sasl_header_layer
  | sasl_write_header_layer
  | sasl_read_header_layer
  | sasl_layer
  | pni_passthru_layer
  | pni_error_layer

text \<open>
  A line of the transport log: the format string given to \<^verbatim>\<open>pn_transport_logf\<close> and
  its arguments, a state printed with \<^verbatim>\<open>%d\<close> or a string printed with \<^verbatim>\<open>%s\<close>.
\<close>

datatype log_arg = State pni_sasl_state | Str string

type_synonym log_line = "string \<times> log_arg list"

text \<open>
  The condition of the transport, a \<^verbatim>\<open>pn_condition_t\<close>: its name and description when
  it is set.
\<close>

record error_condition =
  name :: string
  description :: string

text \<open>
  \<^verbatim>\<open>pn_transport_t\<close>, with the fields the modelled code touches. \<open>trace_frm\<close> is the
  bit \<^verbatim>\<open>trace & PN_TRACE_FRM\<close>; \<open>log\<close> and \<open>frames\<close> record the calls of
  \<^verbatim>\<open>pn_transport_logf\<close> and \<^verbatim>\<open>pn_post_frame\<close> in order.
\<close>

record pn_transport_t =
  sasl :: "pni_sasl_t option"
  connection :: "pn_connection_t option"
  server :: bool
  io_layers :: "pn_io_layer_t list"
  close_sent :: bool
  trace_frm :: bool
  condition :: "error_condition option"
  log :: "log_line list"
  frames :: "sasl_frame list"

subsection \<open>State legality and events\<close>

definition pni_sasl_is_server_state :: "pni_sasl_state \<Rightarrow> bool" where
  "pni_sasl_is_server_state state \<longleftrightarrow>
     state = SASL_NONE
   \<or> state = SASL_POSTED_MECHANISMS
   \<or> state = SASL_POSTED_CHALLENGE
   \<or> state = SASL_POSTED_OUTCOME"

definition pni_sasl_is_client_state :: "pni_sasl_state \<Rightarrow> bool" where
  "pni_sasl_is_client_state state \<longleftrightarrow>
     state = SASL_NONE
   \<or> state = SASL_POSTED_INIT
   \<or> state = SASL_POSTED_RESPONSE
   \<or> state = SASL_PRETEND_OUTCOME
   \<or> state = SASL_RECVED_OUTCOME"

text \<open>
  Modelled from the spec: \<^verbatim>\<open>pn_collector_put\<close> is missing; the collector is the queue
  of the events put to it, in order.
\<close>

definition pn_collector_put :: "pn_event_type_t list \<Rightarrow> pn_event_type_t \<Rightarrow> pn_event_type_t list" where
  "pn_collector_put q e = q @ [e]"

definition pni_emit :: "pn_transport_t \<Rightarrow> pn_transport_t" where
  "pni_emit transport =
     (case connection transport of
        None \<Rightarrow> transport
      | Some c \<Rightarrow>
          (case collector c of
             None \<Rightarrow> transport
           | Some q \<Rightarrow>
               transport\<lparr>connection :=
                 Some (c\<lparr>collector := Some (pn_collector_put q PN_TRANSPORT)\<rparr>)\<rparr>))"

definition pn_transport_logf :: "pn_transport_t \<Rightarrow> log_line \<Rightarrow> pn_transport_t" where
  "pn_transport_logf transport line = transport\<lparr>log := log transport @ [line]\<rparr>"

subsection \<open>Requesting a state\<close>

text \<open>
  \<^verbatim>\<open>pni_sasl_set_desired_state\<close>. The function dereferences \<^verbatim>\<open>transport->sasl\<close>; with
  no SASL context the C is undefined.
\<close>

definition pni_sasl_set_desired_state ::
  "state_value \<Rightarrow> pn_transport_t \<Rightarrow> pni_sasl_state \<Rightarrow> undefined_behaviour + pn_transport_t" where
  "pni_sasl_set_desired_state ev transport desired =
     (case sasl transport of
        None \<Rightarrow> Inl Null_dereference
      | Some s \<Rightarrow>
          Inr
           (if ev (last_state s) > ev desired then
              pn_transport_logf transport
                (''Trying to send SASL frame (%d), but illegal: already in later state (%d)'',
                 [State desired, State (last_state s)])
            else if client s \<and> \<not> pni_sasl_is_client_state desired then
              pn_transport_logf transport
                (''Trying to send server SASL frame (%d) on a client'', [State desired])
            else if \<not> client s \<and> \<not> pni_sasl_is_server_state desired then
              pn_transport_logf transport
                (''Trying to send client SASL frame (%d) on a server'', [State desired])
            else
              let s1 = (if last_state s = desired \<and> desired = SASL_POSTED_RESPONSE
                        then s\<lparr>last_state := SASL_POSTED_INIT\<rparr> else s);
                  s2 = (if last_state s1 = desired \<and> desired = SASL_POSTED_CHALLENGE
                        then s1\<lparr>last_state := SASL_POSTED_MECHANISMS\<rparr> else s1);
                  s3 = s2\<lparr>desired_state := desired\<rparr>
              in pni_emit (transport\<lparr>sasl := Some s3\<rparr>)))"

subsection \<open>The allow-list of mechanisms\<close>

text \<open>
  A \<^verbatim>\<open>pn_bytes_t\<close> is a pointer \<^verbatim>\<open>start\<close> and a length \<^verbatim>\<open>size\<close>: \<open>content\<close> is the
  \<^verbatim>\<open>size\<close> bytes at \<^verbatim>\<open>start\<close>, \<open>following\<close> the memory after them, which code that treats
  \<^verbatim>\<open>start\<close> as a C string goes on to read.
\<close>

record pn_bytes_t =
  content :: string
  following :: string

text \<open>
  A C string is the list of its characters before the terminating NUL; reading it at
  the index of its length gives the terminator.
\<close>

definition NUL :: char where
  "NUL = CHR 0x00"

definition char_at :: "string \<Rightarrow> nat \<Rightarrow> char" where
  "char_at c n = (if n < length c then c ! n else NUL)"

text \<open>
  Modelled from the spec: \<^verbatim>\<open>pn_strncasecmp\<close> (util.c) is missing; the spec calls the
  comparison a case-insensitive match. \<open>pn_strncasecmp a b len\<close> holds when the C
  function returns 0: the first \<open>len\<close> characters of \<open>a\<close> and \<open>b\<close> are equal up to
  the case of the ASCII letters.
\<close>

definition tolower :: "char \<Rightarrow> char" where
  "tolower c =
     (let n = (of_char c :: nat) in if 65 \<le> n \<and> n \<le> 90 then char_of (n + 32) else c)"

definition pn_strncasecmp :: "string \<Rightarrow> string \<Rightarrow> nat \<Rightarrow> bool" where
  "pn_strncasecmp a b len \<longleftrightarrow> map tolower (take len a) = map tolower (take len b)"

text \<open>
  \<^verbatim>\<open>strchr(c, ' ')\<close> followed by \<^verbatim>\<open>c ? c+1 : NULL\<close>: the rest of the string after its
  first space, if it has one.
\<close>

definition after_space :: "string \<Rightarrow> string option" where
  "after_space c =
     (case dropWhile (\<lambda>x. x \<noteq> CHR '' '') c of [] \<Rightarrow> None | _ # rest \<Rightarrow> Some rest)"

lemma after_space_shorter: "after_space c = Some c' \<Longrightarrow> length c' < length c"
proof -
  assume a: "after_space c = Some c'"
  then obtain x where "dropWhile (\<lambda>x. x \<noteq> CHR '' '') c = x # c'"
    by (auto simp: after_space_def split: list.splits)
  then have "Suc (length c') = length (dropWhile (\<lambda>x. x \<noteq> CHR '' '') c)"
    by simp
  also have "\<dots> \<le> length c"
    by (rule length_dropWhile_le)
  finally show ?thesis by simp
qed

text \<open>
  The loop of \<^verbatim>\<open>pni_included_mech\<close>: \<open>c\<close> is the list from the cursor on, \<open>s\<close> the
  \<^verbatim>\<open>s.size\<close> bytes at \<^verbatim>\<open>s.start\<close>.
\<close>

function included_mech_loop :: "string \<Rightarrow> string \<Rightarrow> bool" where
  "included_mech_loop c s =
     (let len = length s in
      if len > length c then False
      else if pn_strncasecmp c s len \<and> (char_at c len = CHR '' '' \<or> char_at c len = NUL)
      then True
      else (case after_space c of None \<Rightarrow> False | Some c' \<Rightarrow> included_mech_loop c' s))"
  by pat_completeness auto
termination
  by (relation "measure (\<lambda>(c, s). length c)") (auto dest: after_space_shorter)

declare included_mech_loop.simps [simp del]

definition pni_included_mech :: "string option \<Rightarrow> pn_bytes_t \<Rightarrow> bool" where
  "pni_included_mech included_mech_list s =
     (case included_mech_list of
        None \<Rightarrow> True
      | Some l \<Rightarrow> included_mech_loop l (content s))"

subsection \<open>Splitting the list of the backend\<close>

text \<open>
  \<^verbatim>\<open>pni_split_mechs\<close>. \<open>buf\<close> is the memory of \<^verbatim>\<open>mechlist\<close> up to its terminator,
  \<open>start\<close> and \<open>end\<close> are offsets into it. \<open>mechs\<close> holds the entries stored so far
  (offsets of tokens), so \<^verbatim>\<open>*count\<close> is its length, and \<open>cap\<close> is the declared length
  of the array: the store \<^verbatim>\<open>mechs[(*count)++] = start\<close> is inside the array only when
  \<open>length mechs < cap\<close>. \<open>pn_bytes buf n start\<close> is \<^verbatim>\<open>pn_bytes(n, buf + start)\<close>.
\<close>

definition pn_bytes :: "string \<Rightarrow> nat \<Rightarrow> nat \<Rightarrow> pn_bytes_t" where
  "pn_bytes buf n start =
     \<lparr>content = take n (drop start buf), following = drop (start + n) buf\<rparr>"

function pni_split_loop ::
  "string option \<Rightarrow> nat \<Rightarrow> string \<Rightarrow> nat list \<Rightarrow> nat \<Rightarrow> nat
     \<Rightarrow> undefined_behaviour + (string \<times> nat list)" where
  "pni_split_loop included_mechs cap buf mechs start end =
     (if end < length buf \<and> buf ! end \<noteq> NUL then
        (if buf ! end = CHR '' '' then
           (if start \<noteq> end then
              (let buf' = buf[end := NUL] in
               if pni_included_mech included_mechs (pn_bytes buf' (end - start) start) then
                 (if length mechs < cap
                  then pni_split_loop included_mechs cap buf' (mechs @ [start]) (end + 1) (end + 1)
                  else Inl Out_of_bounds)
               else pni_split_loop included_mechs cap buf' mechs (end + 1) (end + 1))
            else pni_split_loop included_mechs cap buf mechs (end + 1) (end + 1))
         else pni_split_loop included_mechs cap buf mechs start (end + 1))
      else
        (if start \<noteq> end then
           (if pni_included_mech included_mechs (pn_bytes buf (end - start) start) then
              (if length mechs < cap then Inr (buf, mechs @ [start])
               else Inl Out_of_bounds)
            else Inr (buf, mechs))
         else Inr (buf, mechs)))"
  by pat_completeness auto
termination
  by (relation "measure (\<lambda>(i, cap, buf, mechs, start, end). length buf - end)") auto

declare pni_split_loop.simps [simp del]

definition pni_split_mechs ::
  "string \<Rightarrow> string option \<Rightarrow> nat \<Rightarrow> nat list
     \<Rightarrow> undefined_behaviour + (string \<times> nat list)" where
  "pni_split_mechs mechlist included_mechs cap mechs =
     pni_split_loop included_mechs cap mechlist mechs 0 0"

text \<open>The C string an entry of the array points to.\<close>

definition cstring_at :: "string \<Rightarrow> nat \<Rightarrow> string" where
  "cstring_at buf off = takeWhile (\<lambda>x. x \<noteq> NUL) (drop off buf)"

subsection \<open>Posting frames\<close>

text \<open>
  The mechanism backend is not part of sasl.c: the functions of it that the modelled code
  calls are parameters. \<^verbatim>\<open>pni_sasl_impl_list_mechs\<close> returns its count and the string
  it stores through \<^verbatim>\<open>&mechlist\<close>; \<^verbatim>\<open>pni_init_client\<close> and
  \<^verbatim>\<open>pni_process_mechanisms\<close> return their result and the transport as they leave it.
\<close>

record sasl_impl =
  pni_sasl_impl_list_mechs :: "pn_transport_t \<Rightarrow> int \<times> string option"
  pni_init_client :: "pn_transport_t \<Rightarrow> bool \<times> pn_transport_t"
  pni_process_mechanisms :: "pn_transport_t \<Rightarrow> string \<Rightarrow> bool \<times> pn_transport_t"

text \<open>
  Modelled from the spec: \<^verbatim>\<open>pn_post_frame\<close> is missing; a posted frame is enqueued
  for the output side.
\<close>

definition pn_post_frame :: "pn_transport_t \<Rightarrow> sasl_frame \<Rightarrow> pn_transport_t" where
  "pn_post_frame transport f = transport\<lparr>frames := frames transport @ [f]\<rparr>"

text \<open>
  The block of \<^verbatim>\<open>case SASL_POSTED_MECHANISMS\<close> that fills the array
  \<^verbatim>\<open>char *mechs[16]\<close>; its value is the strings the frame encoder reads from the
  first \<^verbatim>\<open>count\<close> entries.
\<close>

definition mechanisms_to_post ::
  "sasl_impl \<Rightarrow> pn_transport_t \<Rightarrow> string option \<Rightarrow> undefined_behaviour + string list" where
  "mechanisms_to_post impl transport included =
     (case pni_sasl_impl_list_mechs impl transport of
        (n, mechlist) \<Rightarrow>
          if n > 0 then
            (case mechlist of
               None \<Rightarrow> Inl Null_dereference
             | Some ml \<Rightarrow>
                 (case pni_split_mechs ml included 16 [] of
                    Inl u \<Rightarrow> Inl u
                  | Inr (buf, mechs) \<Rightarrow> Inr (map (cstring_at buf) mechs)))
          else Inr [])"

text \<open>
  The measure of the loop: \<open>continues\<close> is the condition under which the target
  \<open>d\<close> executes \<^verbatim>\<open>continue\<close>, \<open>continue_target\<close> the target it sets. From a state
  whose local target is the requested one the loop runs at most three more times.
\<close>

definition continues :: "state_value \<Rightarrow> pni_sasl_t \<Rightarrow> pni_sasl_state \<Rightarrow> bool" where
  "continues ev s d \<longleftrightarrow>
     (d = SASL_PRETEND_OUTCOME \<and> ev (last_state s) < ev SASL_POSTED_INIT)
   \<or> (d = SASL_POSTED_CHALLENGE \<and> ev (last_state s) < ev SASL_POSTED_MECHANISMS)
   \<or> (d = SASL_POSTED_OUTCOME \<and> ev (last_state s) < ev SASL_POSTED_MECHANISMS)
   \<or> (d = SASL_RECVED_OUTCOME \<and> ev (last_state s) < ev SASL_POSTED_INIT \<and> outcome s = PN_SASL_OK)"

definition continue_target :: "pni_sasl_state \<Rightarrow> pni_sasl_state" where
  "continue_target d =
     (if d = SASL_PRETEND_OUTCOME \<or> d = SASL_RECVED_OUTCOME then SASL_POSTED_INIT
      else SASL_POSTED_MECHANISMS)"

definition rest_measure :: "state_value \<Rightarrow> pni_sasl_t \<Rightarrow> nat" where
  "rest_measure ev s =
     (if \<not> ev (desired_state s) > ev (last_state s) \<or> desired_state s = SASL_NONE then 0
      else if continues ev s (desired_state s) then 3 else 1)"

definition loop_measure :: "state_value \<Rightarrow> pni_sasl_t \<Rightarrow> pni_sasl_state \<Rightarrow> nat" where
  "loop_measure ev s d =
     (if \<not> ev (desired_state s) > ev (last_state s) \<or> d = SASL_NONE then 0
      else if continues ev s d
        then 2 + rest_measure ev (s\<lparr>last_state := continue_target d\<rparr>)
        else 1 + rest_measure ev (s\<lparr>last_state := d\<rparr>))"

text \<open>
  The loop of \<^verbatim>\<open>pni_post_sasl_frame\<close>. \<open>s\<close> is the context \<^verbatim>\<open>sasl\<close> points to,
  \<open>out\<close> the copy of \<^verbatim>\<open>sasl->bytes_out\<close> taken before the loop, \<open>desired\<close> the local
  \<^verbatim>\<open>desired_state\<close>; \<^verbatim>\<open>continue\<close> is the call that keeps \<open>s\<close>, the end of the body the
  call that sets \<^verbatim>\<open>last_state\<close>. The context is written back to the transport when
  the loop is left.
\<close>

function pni_post_sasl_frame_loop ::
  "state_value \<Rightarrow> sasl_impl \<Rightarrow> string \<Rightarrow> pn_transport_t \<Rightarrow> pni_sasl_t \<Rightarrow> pni_sasl_state
     \<Rightarrow> undefined_behaviour + pn_transport_t" where
  "pni_post_sasl_frame_loop ev impl out transport s desired =
     (if ev (desired_state s) > ev (last_state s) then
        (case desired of
           SASL_POSTED_INIT \<Rightarrow>
             pni_post_sasl_frame_loop ev impl out
               (pni_emit (pn_post_frame transport (SASL_INIT (selected_mechanism s) out)))
               (s\<lparr>last_state := desired\<rparr>) (desired_state s)
         | SASL_PRETEND_OUTCOME \<Rightarrow>
             if ev (last_state s) < ev SASL_POSTED_INIT
             then pni_post_sasl_frame_loop ev impl out transport s SASL_POSTED_INIT
             else pni_post_sasl_frame_loop ev impl out transport
                    (s\<lparr>last_state := desired\<rparr>) (desired_state s)
         | SASL_POSTED_MECHANISMS \<Rightarrow>
             (case mechanisms_to_post impl (transport\<lparr>sasl := Some s\<rparr>) (included_mechanisms s) of
                Inl u \<Rightarrow> Inl u
              | Inr mechs \<Rightarrow>
                  pni_post_sasl_frame_loop ev impl out
                    (pni_emit (pn_post_frame transport (SASL_MECHANISMS mechs)))
                    (s\<lparr>last_state := desired\<rparr>) (desired_state s))
         | SASL_POSTED_RESPONSE \<Rightarrow>
             pni_post_sasl_frame_loop ev impl out
               (pni_emit (pn_post_frame transport (SASL_RESPONSE out)))
               (s\<lparr>last_state := desired\<rparr>) (desired_state s)
         | SASL_POSTED_CHALLENGE \<Rightarrow>
             if ev (last_state s) < ev SASL_POSTED_MECHANISMS
             then pni_post_sasl_frame_loop ev impl out transport s SASL_POSTED_MECHANISMS
             else pni_post_sasl_frame_loop ev impl out
                    (pni_emit (pn_post_frame transport (SASL_CHALLENGE out)))
                    (s\<lparr>last_state := desired\<rparr>) (desired_state s)
         | SASL_POSTED_OUTCOME \<Rightarrow>
             if ev (last_state s) < ev SASL_POSTED_MECHANISMS
             then pni_post_sasl_frame_loop ev impl out transport s SASL_POSTED_MECHANISMS
             else pni_post_sasl_frame_loop ev impl out
                    (pni_emit (pn_post_frame transport (SASL_OUTCOME (outcome s))))
                    (s\<lparr>last_state := desired\<rparr>) (desired_state s)
         | SASL_RECVED_OUTCOME \<Rightarrow>
             if ev (last_state s) < ev SASL_POSTED_INIT \<and> outcome s = PN_SASL_OK
             then pni_post_sasl_frame_loop ev impl out transport s SASL_POSTED_INIT
             else pni_post_sasl_frame_loop ev impl out transport
                    (s\<lparr>last_state := desired\<rparr>) (desired_state s)
         | SASL_NONE \<Rightarrow> Inr (transport\<lparr>sasl := Some s\<rparr>))
      else Inr (transport\<lparr>sasl := Some s\<rparr>))"
  by pat_completeness auto
termination
  apply (relation "measure (\<lambda>(ev, impl, out, transport, s, d). loop_measure ev s d)")
  apply simp
  apply (simp_all add: loop_measure_def rest_measure_def continues_def continue_target_def)
  done

declare pni_post_sasl_frame_loop.simps [simp del]

definition pni_post_sasl_frame ::
  "state_value \<Rightarrow> sasl_impl \<Rightarrow> pn_transport_t \<Rightarrow> undefined_behaviour + pn_transport_t" where
  "pni_post_sasl_frame ev impl transport =
     (case sasl transport of
        None \<Rightarrow> Inl Null_dereference
      | Some s \<Rightarrow>
          pni_post_sasl_frame_loop ev impl (bytes_out s) transport s (desired_state s))"


subsection \<open>Creating the context and the public handle\<close>

text \<open>
  \<^verbatim>\<open>pn_sasl\<close> allocates the context on first use. The handle it returns is the pointer
  to the transport itself, so a \<^verbatim>\<open>pn_sasl_t *\<close> is a \<open>pn_transport_t option\<close>, \<open>None\<close>
  for NULL.
\<close>

definition pn_sasl :: "pn_transport_t \<Rightarrow> pn_transport_t" where
  "pn_sasl transport =
     (case sasl transport of
        None \<Rightarrow>
          transport\<lparr>sasl := Some
            \<lparr>client = \<not> server transport,
             selected_mechanism = None,
             included_mechanisms = None,
             external_auth = None,
             external_ssf = 0,
             outcome = PN_SASL_NONE,
             bytes_out = [],
             desired_state = SASL_NONE,
             last_state = SASL_NONE\<rparr>\<rparr>
      | Some _ \<Rightarrow> transport)"

definition get_transport_internal :: "pn_transport_t option \<Rightarrow> pn_transport_t option" where
  "get_transport_internal sasl0 = sasl0"

definition get_sasl_internal :: "pn_transport_t option \<Rightarrow> pni_sasl_t option" where
  "get_sasl_internal sasl0 = (case sasl0 of None \<Rightarrow> None | Some transport \<Rightarrow> sasl transport)"

text \<open>
  \<^verbatim>\<open>pn_sasl_done\<close> and \<^verbatim>\<open>pn_sasl_outcome\<close>. \<open>pn_sasl_done\<close> returns the transport the
  handle points to as the call leaves it.
\<close>

definition pn_sasl_done :: "pn_transport_t option \<Rightarrow> pn_sasl_outcome_t \<Rightarrow> pn_transport_t option" where
  "pn_sasl_done sasl0 oc =
     (case sasl0 of
        None \<Rightarrow> None
      | Some transport \<Rightarrow>
          (case get_sasl_internal sasl0 of
             None \<Rightarrow> Some transport
           | Some s \<Rightarrow> Some (transport\<lparr>sasl := Some (s\<lparr>outcome := oc\<rparr>)\<rparr>)))"

definition pn_sasl_outcome :: "pn_transport_t option \<Rightarrow> pn_sasl_outcome_t" where
  "pn_sasl_outcome sasl0 =
     (case get_sasl_internal sasl0 of None \<Rightarrow> PN_SASL_NONE | Some s \<Rightarrow> outcome s)"

subsection \<open>Choosing a mechanism on the client\<close>

text \<open>
  The condition \<^verbatim>\<open>pni_init_client(transport) && pni_process_mechanisms(transport, mechs)\<close>
  of \<^verbatim>\<open>pni_sasl_force_anonymous\<close> and \<^verbatim>\<open>pn_do_mechanisms\<close>: the second call is made only
  when the first returns true.
\<close>

definition init_and_process :: "sasl_impl \<Rightarrow> pn_transport_t \<Rightarrow> string \<Rightarrow> bool \<times> pn_transport_t" where
  "init_and_process impl transport mechs =
     (case pni_init_client impl transport of
        (ok, t1) \<Rightarrow> if ok then pni_process_mechanisms impl t1 mechs else (False, t1))"

definition pni_sasl_force_anonymous ::
  "state_value \<Rightarrow> sasl_impl \<Rightarrow> pn_transport_t \<Rightarrow> undefined_behaviour + pn_transport_t" where
  "pni_sasl_force_anonymous ev impl transport =
     (case sasl transport of
        None \<Rightarrow> Inl Null_dereference
      | Some s \<Rightarrow>
          if client s then
            (case init_and_process impl transport ''ANONYMOUS'' of
               (ok, t2) \<Rightarrow>
                 if ok then pni_sasl_set_desired_state ev t2 SASL_PRETEND_OUTCOME
                 else
                   (case sasl t2 of
                      None \<Rightarrow> Inl Null_dereference
                    | Some s2 \<Rightarrow>
                        pni_sasl_set_desired_state ev
                          (t2\<lparr>sasl := Some (s2\<lparr>outcome := PN_SASL_PERM\<rparr>)\<rparr>) SASL_RECVED_OUTCOME))
          else Inr transport)"

text \<open>
  \<^verbatim>\<open>pn_sasl_allowed_mechs\<close>. \<open>mechs\<close> is the \<^verbatim>\<open>const char *\<close> argument, \<open>None\<close> for NULL;
  \<^verbatim>\<open>strcmp\<close> reads through it.
\<close>

definition pn_sasl_allowed_mechs ::
  "state_value \<Rightarrow> sasl_impl \<Rightarrow> pn_transport_t option \<Rightarrow> string option
     \<Rightarrow> undefined_behaviour + pn_transport_t" where
  "pn_sasl_allowed_mechs ev impl sasl0 mechs =
     (case (get_transport_internal sasl0, get_sasl_internal sasl0) of
        (Some transport, Some s) \<Rightarrow>
          (let t1 = transport\<lparr>sasl := Some (s\<lparr>included_mechanisms := mechs\<rparr>)\<rparr> in
           case mechs of
             None \<Rightarrow> Inl Null_dereference
           | Some m \<Rightarrow>
               if m = ''ANONYMOUS'' then pni_sasl_force_anonymous ev impl t1 else Inr t1)
      | _ \<Rightarrow> Inl Null_dereference)"

subsection \<open>A received MECHANISMS frame\<close>

text \<open>
  \<^verbatim>\<open>pn_string_addf(mechs, "%*s ", (int)s.size, s.start)\<close>: \<^verbatim>\<open>%*s\<close> prints the C string
  at \<^verbatim>\<open>s.start\<close>, padded on the left with spaces to at least \<^verbatim>\<open>s.size\<close> characters. The C
  string ends at the first NUL of the memory at \<^verbatim>\<open>s.start\<close>; with none the read leaves
  the memory.
\<close>

definition pn_string_addf :: "string \<Rightarrow> pn_bytes_t \<Rightarrow> undefined_behaviour + string" where
  "pn_string_addf mechs s =
     (let mem = content s @ following s in
      if NUL \<in> set mem then
        (let cs = takeWhile (\<lambda>x. x \<noteq> NUL) mem in
         Inr (mechs @ replicate (length (content s) - length cs) (CHR '' '') @ cs @ '' ''))
      else Inl Out_of_bounds)"

text \<open>
  Modelled from the spec: \<^verbatim>\<open>pn_data_t\<close> and its cursor are missing; the arguments of the
  frame are either the error code of \<^verbatim>\<open>pn_data_scan\<close> or the symbols of the array, in the
  order \<^verbatim>\<open>pn_data_next\<close> and \<^verbatim>\<open>pn_data_get_symbol\<close> yield them.
\<close>

type_synonym mechanisms_args = "int + pn_bytes_t list"

text \<open>The loop of \<^verbatim>\<open>pn_do_mechanisms\<close> over the symbols; \<open>mechs\<close> is the string built.\<close>

fun collect_mechs ::
  "string option \<Rightarrow> pn_bytes_t list \<Rightarrow> string \<Rightarrow> undefined_behaviour + string" where
  "collect_mechs included [] mechs = Inr mechs"
| "collect_mechs included (s # rest) mechs =
     (if pni_included_mech included s then
        (case pn_string_addf mechs s of
           Inl u \<Rightarrow> Inl u
         | Inr mechs' \<Rightarrow> collect_mechs included rest mechs')
      else collect_mechs included rest mechs)"

text \<open>\<^verbatim>\<open>pn_string_get\<close>: the buffer read as a C string.\<close>

definition pn_string_get :: "string \<Rightarrow> string" where
  "pn_string_get buf = takeWhile (\<lambda>x. x \<noteq> NUL) buf"

text \<open>
  \<^verbatim>\<open>pn_do_mechanisms\<close>, without the arguments it does not use; its value is the returned
  code and the transport.
\<close>

definition pn_do_mechanisms ::
  "state_value \<Rightarrow> sasl_impl \<Rightarrow> pn_transport_t \<Rightarrow> mechanisms_args
     \<Rightarrow> undefined_behaviour + (int \<times> pn_transport_t)" where
  "pn_do_mechanisms ev impl transport args =
     (case sasl transport of
        None \<Rightarrow> Inl Null_dereference
      | Some s \<Rightarrow>
          if last_state s = SASL_PRETEND_OUTCOME then Inr (0, transport)
          else
            (case args of
               Inl err \<Rightarrow> Inr (err, transport)
             | Inr symbols \<Rightarrow>
                 (case collect_mechs (included_mechanisms s) symbols [] of
                    Inl u \<Rightarrow> Inl u
                  | Inr mechs \<Rightarrow>
                      (let mechs' = (if length mechs \<noteq> 0
                                     then mechs[length mechs - 1 := NUL] else mechs)
                       in case init_and_process impl transport (pn_string_get mechs') of
                            (ok, t2) \<Rightarrow>
                              (case (if ok then pni_sasl_set_desired_state ev t2 SASL_POSTED_INIT
                                     else
                                       (case sasl t2 of
                                          None \<Rightarrow> Inl Null_dereference
                                        | Some s2 \<Rightarrow>
                                            pni_sasl_set_desired_state ev
                                              (t2\<lparr>sasl := Some (s2\<lparr>outcome := PN_SASL_PERM\<rparr>)\<rparr>)
                                              SASL_RECVED_OUTCOME)) of
                                 Inl u \<Rightarrow> Inl u
                               | Inr t3 \<Rightarrow> Inr (0, t3))))))"

subsection \<open>Reading the SASL header\<close>

text \<open>
  Modelled from the spec: the type \<^verbatim>\<open>ssize_t\<close> result of a layer processor and the
  constant \<^verbatim>\<open>PN_EOS\<close> are missing; a processor returns a non-negative byte count or EOS.
\<close>

datatype io_result = Bytes nat | PN_EOS

text \<open>
  The result of the sniffer: the two enumerators \<^verbatim>\<open>pn_input_read_sasl_header\<close> names,
  and any other enumerator of \<^verbatim>\<open>pni_protocol_type_t\<close> (autodetect.h is not among the
  sources) by its value.
\<close>

datatype pni_protocol_type_t =
    PNI_PROTOCOL_AMQP_SASL
  | PNI_PROTOCOL_INSUFFICIENT
  | PNI_PROTOCOL_ANOTHER nat

text \<open>
  The functions of the transport, the sniffer and the TLS layer that the header reader
  calls are not in sasl.c: they are parameters.
\<close>

record transport_impl =
  pn_transport_capacity :: "pn_transport_t \<Rightarrow> io_result"
  pni_sniff_header :: "string \<Rightarrow> pni_protocol_type_t"
  pni_protocol_name :: "pni_protocol_type_t \<Rightarrow> string"
  pn_quote_data :: "nat \<Rightarrow> string \<Rightarrow> string"
  pn_do_error :: "pn_transport_t \<Rightarrow> string \<Rightarrow> string \<Rightarrow> pn_transport_t"
  pn_set_error_layer :: "pn_transport_t \<Rightarrow> pn_transport_t"
  pn_ssl_get_ssf :: "pn_transport_t \<Rightarrow> int"
  pn_ssl_get_remote_subject :: "pn_transport_t \<Rightarrow> string option"

definition SASL_HEADER_LEN :: nat where
  "SASL_HEADER_LEN = 8"

definition pni_sasl_set_external_security ::
  "pn_transport_t \<Rightarrow> int \<Rightarrow> string option \<Rightarrow> undefined_behaviour + pn_transport_t" where
  "pni_sasl_set_external_security transport ssf authid =
     (case sasl transport of
        None \<Rightarrow> Inl Null_dereference
      | Some s \<Rightarrow>
          Inr (transport\<lparr>sasl := Some (s\<lparr>external_ssf := ssf, external_auth := authid\<rparr>)\<rparr>))"

text \<open>
  The description \<^verbatim>\<open>"%s header mismatch: %s ['%s']%s"\<close> with its four arguments.
\<close>

definition header_mismatch_description :: "string \<Rightarrow> string \<Rightarrow> bool \<Rightarrow> string" where
  "header_mismatch_description protocol_name quoted eos =
     ''SASL'' @ '' header mismatch: '' @ protocol_name @ '' ['' @ [CHR 0x27] @ quoted
       @ [CHR 0x27] @ '']'' @ (if \<not> eos then [] else '' (connection aborted)'')"

text \<open>The statements of \<^verbatim>\<open>pn_input_read_sasl_header\<close> after the switch.\<close>

definition header_mismatch ::
  "transport_impl \<Rightarrow> pn_transport_t \<Rightarrow> pni_protocol_type_t \<Rightarrow> bool \<Rightarrow> string
     \<Rightarrow> io_result \<times> pn_transport_t" where
  "header_mismatch ext transport protocol eos data =
     (let t1 = transport\<lparr>close_sent := True\<rparr>;
          quoted = pn_quote_data ext 1024 data;
          t2 = pn_do_error ext t1 ''amqp:connection:framing-error''
                 (header_mismatch_description (pni_protocol_name ext protocol) quoted eos)
      in (PN_EOS, pn_set_error_layer ext t2))"

text \<open>
  \<^verbatim>\<open>pn_input_read_sasl_header\<close>; \<open>data\<close> is the \<^verbatim>\<open>available\<close> bytes at \<^verbatim>\<open>bytes\<close>. A
  \<open>layer\<close> that is not an index of \<^verbatim>\<open>io_layers\<close> is undefined in C.
\<close>

definition pn_input_read_sasl_header ::
  "transport_impl \<Rightarrow> pn_transport_t \<Rightarrow> nat \<Rightarrow> string
     \<Rightarrow> undefined_behaviour + (io_result \<times> pn_transport_t)" where
  "pn_input_read_sasl_header ext transport layer data =
     (let eos = (pn_transport_capacity ext transport = PN_EOS);
          protocol = pni_sniff_header ext data
      in case protocol of
           PNI_PROTOCOL_AMQP_SASL \<Rightarrow>
             if layer < length (io_layers transport) then
               (let t1 = transport\<lparr>io_layers := (io_layers transport)
                            [layer := (if io_layers transport ! layer = sasl_read_header_layer
                                       then sasl_layer else sasl_write_header_layer)]\<rparr>;
                    t2 = (if trace_frm t1
                          then pn_transport_logf t1 (''  <- %s'', [Str ''SASL'']) else t1)
                in case pni_sasl_set_external_security t2
                          (pn_ssl_get_ssf ext t2) (pn_ssl_get_remote_subject ext t2) of
                     Inl u \<Rightarrow> Inl u
                   | Inr t3 \<Rightarrow> Inr (Bytes SASL_HEADER_LEN, t3))
             else Inl Out_of_bounds
         | PNI_PROTOCOL_INSUFFICIENT \<Rightarrow>
             if \<not> eos then Inr (Bytes 0, transport)
             else Inr (header_mismatch ext transport protocol eos data)
         | PNI_PROTOCOL_ANOTHER _ \<Rightarrow> Inr (header_mismatch ext transport protocol eos data))"

section \<open>The C++ connection driver (bindings/cpp/src/io/connection\_driver.cpp)\<close>

text \<open>
  Modelled from the spec: \<^verbatim>\<open>pn_connection_driver_t\<close> and the functions
  \<^verbatim>\<open>pn_transport_condition\<close>, \<^verbatim>\<open>pn_condition_is_set\<close>, \<^verbatim>\<open>set_error_condition\<close> and
  \<^verbatim>\<open>pn_connection_driver_close\<close> are missing. The driver holds its transport and the
  two halves that can be closed; the condition of the transport is set when it holds an
  error condition; setting it stores the error; closing the driver closes both halves.
\<close>

record pn_connection_driver_t =
  driver_transport :: pn_transport_t
  read_closed :: bool
  write_closed :: bool

definition pn_transport_condition :: "pn_transport_t \<Rightarrow> error_condition option" where
  "pn_transport_condition transport = condition transport"

definition pn_condition_is_set :: "error_condition option \<Rightarrow> bool" where
  "pn_condition_is_set c \<longleftrightarrow> c \<noteq> None"

definition set_error_condition :: "error_condition \<Rightarrow> error_condition option \<Rightarrow> error_condition option" where
  "set_error_condition err c = Some err"

definition pn_connection_driver_close :: "pn_connection_driver_t \<Rightarrow> pn_connection_driver_t" where
  "pn_connection_driver_close d = d\<lparr>read_closed := True, write_closed := True\<rparr>"

text \<open>
  \<^verbatim>\<open>connection_driver::disconnected\<close>, on the member \<^verbatim>\<open>driver_\<close>. \<^verbatim>\<open>condition\<close> points
  into the transport of the driver, so the write goes to that transport.
\<close>

definition disconnected :: "error_condition \<Rightarrow> pn_connection_driver_t \<Rightarrow> pn_connection_driver_t" where
  "disconnected err driver =
     (let c = pn_transport_condition (driver_transport driver);
          d1 = (if \<not> pn_condition_is_set c
                then driver\<lparr>driver_transport :=
                       (driver_transport driver)\<lparr>condition := set_error_condition err c\<rparr>\<rparr>
                else driver)
      in pn_connection_driver_close d1)"

section \<open>Properties of the SASL state machine\<close>

subsection \<open>The numbering of the states\<close>

lemma listed_value_inj: "listed_value a = listed_value b \<Longrightarrow> a = b"
  by (cases a; cases b) simp_all

subsection \<open>Steps of the posting loop\<close>

lemma sasl_write_back: "sasl t = Some s \<Longrightarrow> t\<lparr>sasl := Some s\<rparr> = t"
  by simp

lemma frames_pni_emit [simp]: "frames (pni_emit t) = frames t"
  by (simp add: pni_emit_def split: option.splits)

lemma sasl_pni_emit [simp]: "sasl (pni_emit t) = sasl t"
  by (simp add: pni_emit_def split: option.splits)

lemma log_pni_emit [simp]: "log (pni_emit t) = log t"
  by (simp add: pni_emit_def split: option.splits)

lemma pni_emit_sasl_update [simp]: "(pni_emit t)\<lparr>sasl := x\<rparr> = pni_emit (t\<lparr>sasl := x\<rparr>)"
  by (simp add: pni_emit_def split: option.splits)

lemma loop_exit:
  "\<not> ev (last_state s) < ev (desired_state s)
     \<Longrightarrow> pni_post_sasl_frame_loop ev impl out t s d = Inr (t\<lparr>sasl := Some s\<rparr>)"
  by (subst pni_post_sasl_frame_loop.simps) simp

lemma loop_step:
  "ev (last_state s) < ev (desired_state s) \<Longrightarrow>
   pni_post_sasl_frame_loop ev impl out t s d =
        (case d of
           SASL_POSTED_INIT \<Rightarrow>
             pni_post_sasl_frame_loop ev impl out
               (pni_emit (pn_post_frame t (SASL_INIT (selected_mechanism s) out)))
               (s\<lparr>last_state := d\<rparr>) (desired_state s)
         | SASL_PRETEND_OUTCOME \<Rightarrow>
             if ev (last_state s) < ev SASL_POSTED_INIT
             then pni_post_sasl_frame_loop ev impl out t s SASL_POSTED_INIT
             else pni_post_sasl_frame_loop ev impl out t
                    (s\<lparr>last_state := d\<rparr>) (desired_state s)
         | SASL_POSTED_MECHANISMS \<Rightarrow>
             (case mechanisms_to_post impl (t\<lparr>sasl := Some s\<rparr>) (included_mechanisms s) of
                Inl u \<Rightarrow> Inl u
              | Inr mechs \<Rightarrow>
                  pni_post_sasl_frame_loop ev impl out
                    (pni_emit (pn_post_frame t (SASL_MECHANISMS mechs)))
                    (s\<lparr>last_state := d\<rparr>) (desired_state s))
         | SASL_POSTED_RESPONSE \<Rightarrow>
             pni_post_sasl_frame_loop ev impl out
               (pni_emit (pn_post_frame t (SASL_RESPONSE out)))
               (s\<lparr>last_state := d\<rparr>) (desired_state s)
         | SASL_POSTED_CHALLENGE \<Rightarrow>
             if ev (last_state s) < ev SASL_POSTED_MECHANISMS
             then pni_post_sasl_frame_loop ev impl out t s SASL_POSTED_MECHANISMS
             else pni_post_sasl_frame_loop ev impl out
                    (pni_emit (pn_post_frame t (SASL_CHALLENGE out)))
                    (s\<lparr>last_state := d\<rparr>) (desired_state s)
         | SASL_POSTED_OUTCOME \<Rightarrow>
             if ev (last_state s) < ev SASL_POSTED_MECHANISMS
             then pni_post_sasl_frame_loop ev impl out t s SASL_POSTED_MECHANISMS
             else pni_post_sasl_frame_loop ev impl out
                    (pni_emit (pn_post_frame t (SASL_OUTCOME (outcome s))))
                    (s\<lparr>last_state := d\<rparr>) (desired_state s)
         | SASL_RECVED_OUTCOME \<Rightarrow>
             if ev (last_state s) < ev SASL_POSTED_INIT \<and> outcome s = PN_SASL_OK
             then pni_post_sasl_frame_loop ev impl out t s SASL_POSTED_INIT
             else pni_post_sasl_frame_loop ev impl out t
                    (s\<lparr>last_state := d\<rparr>) (desired_state s)
         | SASL_NONE \<Rightarrow> Inr (t\<lparr>sasl := Some s\<rparr>))"
  by (subst pni_post_sasl_frame_loop.simps) simp

text \<open>
  The value of \<^verbatim>\<open>last_state\<close> when the loop is left, for any numbering of the states.
\<close>

definition drained_last :: "state_value \<Rightarrow> pni_sasl_t \<Rightarrow> pni_sasl_state" where
  "drained_last ev s =
     (if \<not> ev (last_state s) < ev (desired_state s) \<or> desired_state s = SASL_NONE
      then last_state s
      else if continues ev s (desired_state s)
        \<and> \<not> ev (continue_target (desired_state s)) < ev (desired_state s)
      then continue_target (desired_state s)
      else desired_state s)"

lemmas drain_simps =
  pni_post_sasl_frame_def loop_step loop_exit continues_def continue_target_def
  drained_last_def sasl_write_back

lemma post_sasl_frame_cases:
  assumes t: "sasl t = Some s"
  shows "(\<exists>u. pni_post_sasl_frame ev impl t = Inl u)
       \<or> (\<exists>t'. pni_post_sasl_frame ev impl t = Inr t'
              \<and> sasl t' = Some (s\<lparr>last_state := drained_last ev s\<rparr>))"
proof (cases "ev (last_state s) < ev (desired_state s)")
  case False
  with t show ?thesis
    by (simp add: pni_post_sasl_frame_def loop_exit drained_last_def)
next
  case run: True
  obtain r where r: "mechanisms_to_post impl t (included_mechanisms s) = r"
    by simp
  show ?thesis
  proof (cases "desired_state s")
    case SASL_NONE
    with t run show ?thesis by (simp add: drain_simps)
  next
    case SASL_POSTED_INIT
    with t run show ?thesis by (simp add: drain_simps)
  next
    case SASL_POSTED_RESPONSE
    with t run show ?thesis by (simp add: drain_simps)
  next
    case SASL_POSTED_MECHANISMS
    with t run r show ?thesis by (cases r) (simp_all add: drain_simps)
  next
    case SASL_POSTED_CHALLENGE
    with t run r show ?thesis
      by (cases r; cases "ev SASL_POSTED_MECHANISMS < ev SASL_POSTED_CHALLENGE")
         (simp_all add: drain_simps)
  next
    case SASL_POSTED_OUTCOME
    with t run r show ?thesis
      by (cases r; cases "ev SASL_POSTED_MECHANISMS < ev SASL_POSTED_OUTCOME")
         (simp_all add: drain_simps)
  next
    case SASL_PRETEND_OUTCOME
    with t run show ?thesis
      by (cases "ev SASL_POSTED_INIT < ev SASL_PRETEND_OUTCOME") (simp_all add: drain_simps)
  next
    case SASL_RECVED_OUTCOME
    with t run show ?thesis
      by (cases "ev SASL_POSTED_INIT < ev SASL_RECVED_OUTCOME") (simp_all add: drain_simps)
  qed
qed

lemma post_sasl_frame_last_state:
  assumes "sasl t = Some s" "pni_post_sasl_frame ev impl t = Inr t'"
  shows "sasl t' = Some (s\<lparr>last_state := drained_last ev s\<rparr>)"
  using post_sasl_frame_cases [OF assms(1), of ev impl] assms(2) by auto

lemma drained_last_monotone: "ev (last_state s) \<le> ev (drained_last ev s)"
  by (auto simp: drained_last_def continues_def continue_target_def)

subsection \<open>Roles\<close>

text \<open>
  The table of state legality: a state is legal for a context when the predicate of the
  context's role accepts it. A state is server-only (client-only) when only the server
  (client) predicate accepts it.
\<close>

definition legal_for_role :: "bool \<Rightarrow> pni_sasl_state \<Rightarrow> bool" where
  "legal_for_role is_client state =
     (if is_client then pni_sasl_is_client_state state else pni_sasl_is_server_state state)"

definition server_only :: "pni_sasl_state \<Rightarrow> bool" where
  "server_only state \<longleftrightarrow> pni_sasl_is_server_state state \<and> \<not> pni_sasl_is_client_state state"

definition client_only :: "pni_sasl_state \<Rightarrow> bool" where
  "client_only state \<longleftrightarrow> pni_sasl_is_client_state state \<and> \<not> pni_sasl_is_server_state state"

definition role_invariant :: "pni_sasl_t \<Rightarrow> bool" where
  "role_invariant s \<longleftrightarrow>
     legal_for_role (client s) (last_state s) \<and> legal_for_role (client s) (desired_state s)"

text \<open>
  The transports a run can reach from \<open>t0\<close>: \<^verbatim>\<open>last_state\<close> and \<^verbatim>\<open>desired_state\<close> are
  written by \<^verbatim>\<open>pni_sasl_set_desired_state\<close> and \<^verbatim>\<open>pni_post_sasl_frame\<close> only; the
  outcome is also set through \<^verbatim>\<open>pn_sasl_done\<close>.
\<close>

inductive reachable :: "state_value \<Rightarrow> sasl_impl \<Rightarrow> pn_transport_t \<Rightarrow> pn_transport_t \<Rightarrow> bool"
  for ev :: state_value and impl :: sasl_impl and t0 :: pn_transport_t where
  created: "reachable ev impl t0 t0"
| requested: "reachable ev impl t0 t \<Longrightarrow> pni_sasl_set_desired_state ev t d = Inr t'
     \<Longrightarrow> reachable ev impl t0 t'"
| posted: "reachable ev impl t0 t \<Longrightarrow> pni_post_sasl_frame ev impl t = Inr t'
     \<Longrightarrow> reachable ev impl t0 t'"
| outcome_set: "reachable ev impl t0 t \<Longrightarrow> pn_sasl_done (Some t) oc = Some t'
     \<Longrightarrow> reachable ev impl t0 t'"

lemma role_invariant_cases:
  "role_invariant s \<Longrightarrow>
     (client s \<longrightarrow> \<not> server_only (last_state s) \<and> \<not> server_only (desired_state s))
   \<and> (\<not> client s \<longrightarrow> \<not> client_only (last_state s) \<and> \<not> client_only (desired_state s))"
  by (auto simp: role_invariant_def legal_for_role_def server_only_def client_only_def
           split: if_splits)

lemma set_desired_state_rejects:
  assumes t: "sasl t = Some s"
    and r: "ev d < ev (last_state s) \<or> \<not> legal_for_role (client s) d"
  shows "\<exists>line. pni_sasl_set_desired_state ev t d = Inr (t\<lparr>log := log t @ [line]\<rparr>)"
proof -
  consider (later) "ev d < ev (last_state s)"
    | (on_client) "\<not> ev d < ev (last_state s)" "client s" "\<not> pni_sasl_is_client_state d"
    | (on_server) "\<not> ev d < ev (last_state s)" "\<not> client s" "\<not> pni_sasl_is_server_state d"
    using r by (cases "client s") (auto simp: legal_for_role_def)
  then show ?thesis
  proof cases
    case later
    with t have "pni_sasl_set_desired_state ev t d = Inr (t\<lparr>log := log t @
        [(''Trying to send SASL frame (%d), but illegal: already in later state (%d)'',
          [State d, State (last_state s)])]\<rparr>)"
      by (simp add: pni_sasl_set_desired_state_def pn_transport_logf_def)
    then show ?thesis by (rule exI)
  next
    case on_client
    with t have "pni_sasl_set_desired_state ev t d = Inr (t\<lparr>log := log t @
        [(''Trying to send server SASL frame (%d) on a client'', [State d])]\<rparr>)"
      by (simp add: pni_sasl_set_desired_state_def pn_transport_logf_def)
    then show ?thesis by (rule exI)
  next
    case on_server
    with t have "pni_sasl_set_desired_state ev t d = Inr (t\<lparr>log := log t @
        [(''Trying to send client SASL frame (%d) on a server'', [State d])]\<rparr>)"
      by (simp add: pni_sasl_set_desired_state_def pn_transport_logf_def)
    then show ?thesis by (rule exI)
  qed
qed

text \<open>
  The two rewind rules: \<^verbatim>\<open>last_state\<close> after an accepted request for \<open>d\<close>.
\<close>

definition rewound :: "pni_sasl_t \<Rightarrow> pni_sasl_state \<Rightarrow> pni_sasl_state" where
  "rewound s d =
     (if last_state s = SASL_POSTED_RESPONSE \<and> d = SASL_POSTED_RESPONSE then SASL_POSTED_INIT
      else if last_state s = SASL_POSTED_CHALLENGE \<and> d = SASL_POSTED_CHALLENGE
      then SASL_POSTED_MECHANISMS
      else last_state s)"

lemma set_desired_state_applies:
  assumes "sasl t = Some s" "\<not> ev d < ev (last_state s)" "legal_for_role (client s) d"
  shows "pni_sasl_set_desired_state ev t d =
           Inr (pni_emit (t\<lparr>sasl := Some (s\<lparr>last_state := rewound s d, desired_state := d\<rparr>)\<rparr>))"
  using assms
  by (cases "client s")
     (simp_all add: pni_sasl_set_desired_state_def legal_for_role_def Let_def rewound_def)

lemma rewound_role:
  assumes "role_invariant s" "legal_for_role (client s) d"
  shows "role_invariant (s\<lparr>last_state := rewound s d, desired_state := d\<rparr>)"
  using assms
  by (cases "client s")
     (auto simp: role_invariant_def legal_for_role_def rewound_def
        pni_sasl_is_client_state_def pni_sasl_is_server_state_def)

lemma set_desired_state_role:
  assumes t: "sasl t = Some s" and inv: "role_invariant s"
    and r: "pni_sasl_set_desired_state ev t d = Inr t'"
  shows "\<exists>s'. sasl t' = Some s' \<and> client s' = client s \<and> role_invariant s'"
proof (cases "ev d < ev (last_state s) \<or> \<not> legal_for_role (client s) d")
  case True
  from set_desired_state_rejects [OF t True] r obtain line
    where "t' = t\<lparr>log := log t @ [line]\<rparr>"
    by auto
  with t inv show ?thesis by simp
next
  case False
  then have a: "\<not> ev d < ev (last_state s)" and l: "legal_for_role (client s) d"
    by simp_all
  from set_desired_state_applies [OF t a l] r
  have "sasl t' = Some (s\<lparr>last_state := rewound s d, desired_state := d\<rparr>)"
    by auto
  with rewound_role [OF inv l] show ?thesis by simp
qed

lemma drained_last_role:
  assumes "role_invariant s"
  shows "role_invariant (s\<lparr>last_state := drained_last ev s\<rparr>)"
  using assms
  by (cases "desired_state s")
     (auto simp: role_invariant_def legal_for_role_def drained_last_def continues_def
        continue_target_def pni_sasl_is_client_state_def pni_sasl_is_server_state_def
        split: if_splits)

lemma post_sasl_frame_role:
  assumes "sasl t = Some s" "role_invariant s" "pni_post_sasl_frame ev impl t = Inr t'"
  shows "\<exists>s'. sasl t' = Some s' \<and> client s' = client s \<and> role_invariant s'"
  using post_sasl_frame_last_state [OF assms(1,3)] drained_last_role [OF assms(2), of ev]
  by simp

lemma sasl_done_role:
  assumes "sasl t = Some s" "role_invariant s" "pn_sasl_done (Some t) oc = Some t'"
  shows "\<exists>s'. sasl t' = Some s' \<and> client s' = client s \<and> role_invariant s'"
  using assms
  by (auto simp: pn_sasl_done_def get_sasl_internal_def role_invariant_def)

lemma pn_sasl_fresh:
  assumes "sasl t0 = None"
  shows "\<exists>s. sasl (pn_sasl t0) = Some s \<and> client s = (\<not> server t0) \<and> role_invariant s
           \<and> last_state s = SASL_NONE \<and> desired_state s = SASL_NONE"
  using assms
  by (simp add: pn_sasl_def role_invariant_def legal_for_role_def
        pni_sasl_is_client_state_def pni_sasl_is_server_state_def)

lemma reachable_role:
  assumes "reachable ev impl t0 t" "sasl t0 = Some s0" "role_invariant s0"
  shows "\<exists>s. sasl t = Some s \<and> client s = client s0 \<and> role_invariant s"
  using assms
proof (induction rule: reachable.induct)
  case created
  then show ?case by simp
next
  case (requested t d t')
  then obtain s where s: "sasl t = Some s" "client s = client s0" "role_invariant s"
    by blast
  from set_desired_state_role [OF s(1) s(3) requested.hyps(2)] s(2) show ?case
    by auto
next
  case (posted t t')
  then obtain s where s: "sasl t = Some s" "client s = client s0" "role_invariant s"
    by blast
  from post_sasl_frame_role [OF s(1) s(3) posted.hyps(2)] s(2) show ?case
    by auto
next
  case (outcome_set t oc t')
  then obtain s where s: "sasl t = Some s" "client s = client s0" "role_invariant s"
    by blast
  from sasl_done_role [OF s(1) s(3) outcome_set.hyps(2)] s(2) show ?case
    by auto
qed

subsection \<open>Example inputs\<close>

text \<open>
  A transport on which SASL has not been referenced yet, bound to a connection with an
  empty collector; \<open>srv\<close> is its \<^verbatim>\<open>server\<close> flag. A backend that advertises ANONYMOUS
  and accepts every offer without touching the transport.
\<close>

definition fresh_transport :: "bool \<Rightarrow> pn_transport_t" where
  "fresh_transport srv =
     \<lparr>sasl = None, connection = Some \<lparr>collector = Some []\<rparr>, server = srv,
      io_layers = [sasl_header_layer], close_sent = False, trace_frm = False,
      condition = None, log = [], frames = []\<rparr>"

definition accepting_impl :: sasl_impl where
  "accepting_impl =
     \<lparr>pni_sasl_impl_list_mechs = (\<lambda>t. (1, Some ''ANONYMOUS'')),
      pni_init_client = (\<lambda>t. (True, t)),
      pni_process_mechanisms = (\<lambda>t mechs. (True, t))\<rparr>"

definition fresh_context :: "bool \<Rightarrow> pni_sasl_t" where
  "fresh_context is_client =
     \<lparr>client = is_client, selected_mechanism = None, included_mechanisms = None,
      external_auth = None, external_ssf = 0, outcome = PN_SASL_NONE, bytes_out = [],
      desired_state = SASL_NONE, last_state = SASL_NONE\<rparr>"

lemma sasl_fresh: "sasl (pn_sasl (fresh_transport srv)) = Some (fresh_context (\<not> srv))"
  by (simp add: pn_sasl_def fresh_transport_def fresh_context_def)

subsection \<open>Requests for a state\<close>

lemma reachable_from_fresh:
  assumes "sasl t0 = None" "reachable ev impl (pn_sasl t0) t" "sasl t = Some s"
  shows "client s = (\<not> server t0) \<and> role_invariant s"
proof -
  from pn_sasl_fresh [OF assms(1)] obtain s0
    where s0: "sasl (pn_sasl t0) = Some s0" "client s0 = (\<not> server t0)" "role_invariant s0"
    by blast
  from reachable_role [OF assms(2) s0(1) s0(3)] assms(3) s0(2) show ?thesis
    by auto
qed

text \<open>
  C1. For a transport with a SASL context and a requested state \<open>d\<close>: when \<open>d\<close> is below
  \<^verbatim>\<open>last_state\<close> or not legal for the role of the context, the call returns the
  transport unchanged but for one more log line; otherwise the desired state becomes \<open>d\<close>
  and the role stays. On every transport reached from a freshly created context by
  requests, postings of frames and \<^verbatim>\<open>pn_sasl_done\<close>, the role is the one fixed at
  creation, a client context holds no server-only state and a server context holds no
  client-only state, in \<^verbatim>\<open>last_state\<close> and in \<^verbatim>\<open>desired_state\<close>.
\<close>

theorem set_desired_state_guards_role:
  assumes t: "sasl t = Some s"
  shows "(ev d < ev (last_state s) \<or> \<not> legal_for_role (client s) d \<longrightarrow>
            (\<exists>line. pni_sasl_set_desired_state ev t d = Inr (t\<lparr>log := log t @ [line]\<rparr>)))
       \<and> (\<not> ev d < ev (last_state s) \<and> legal_for_role (client s) d \<longrightarrow>
            (\<exists>t' s'. pni_sasl_set_desired_state ev t d = Inr t' \<and> sasl t' = Some s'
               \<and> desired_state s' = d \<and> client s' = client s))
       \<and> (\<forall>t0. sasl t0 = None \<and> reachable ev impl (pn_sasl t0) t \<longrightarrow>
            client s = (\<not> server t0)
          \<and> (client s \<longrightarrow>
               \<not> server_only (last_state s) \<and> \<not> server_only (desired_state s))
          \<and> (\<not> client s \<longrightarrow>
               \<not> client_only (last_state s) \<and> \<not> client_only (desired_state s)))"
proof (intro conjI impI allI)
  assume "ev d < ev (last_state s) \<or> \<not> legal_for_role (client s) d"
  then show "\<exists>line. pni_sasl_set_desired_state ev t d = Inr (t\<lparr>log := log t @ [line]\<rparr>)"
    by (rule set_desired_state_rejects [OF t])
next
  assume "\<not> ev d < ev (last_state s) \<and> legal_for_role (client s) d"
  then have "pni_sasl_set_desired_state ev t d =
      Inr (pni_emit (t\<lparr>sasl := Some (s\<lparr>last_state := rewound s d, desired_state := d\<rparr>)\<rparr>))"
    using set_desired_state_applies [OF t] by blast
  then show "\<exists>t' s'. pni_sasl_set_desired_state ev t d = Inr t' \<and> sasl t' = Some s'
               \<and> desired_state s' = d \<and> client s' = client s"
    by simp
next
  fix t0
  assume r: "sasl t0 = None \<and> reachable ev impl (pn_sasl t0) t"
  then have f: "client s = (\<not> server t0) \<and> role_invariant s"
    using reachable_from_fresh [of t0 ev impl t s] t by blast
  from f show "client s = (\<not> server t0)" by simp
  from f have c: "(client s \<longrightarrow> \<not> server_only (last_state s) \<and> \<not> server_only (desired_state s))
   \<and> (\<not> client s \<longrightarrow> \<not> client_only (last_state s) \<and> \<not> client_only (desired_state s))"
    using role_invariant_cases by blast
  { assume "client s"
    with c show "\<not> server_only (last_state s)" by blast
    from \<open>client s\<close> c show "\<not> server_only (desired_state s)" by blast }
  { assume "\<not> client s"
    with c show "\<not> client_only (last_state s)" by blast
    from \<open>\<not> client s\<close> c show "\<not> client_only (desired_state s)" by blast }
qed

theorem set_desired_state_guards_role_witness:
  "sasl (pn_sasl (fresh_transport False)) = Some (fresh_context True)
   \<and> \<not> legal_for_role (client (fresh_context True)) SASL_POSTED_MECHANISMS
   \<and> (\<exists>line. pni_sasl_set_desired_state listed_value (pn_sasl (fresh_transport False))
                 SASL_POSTED_MECHANISMS
               = Inr ((pn_sasl (fresh_transport False))
                        \<lparr>log := log (pn_sasl (fresh_transport False)) @ [line]\<rparr>))
   \<and> legal_for_role (client (fresh_context True)) SASL_POSTED_INIT
   \<and> (\<exists>t' s'. pni_sasl_set_desired_state listed_value (pn_sasl (fresh_transport False))
                 SASL_POSTED_INIT = Inr t'
               \<and> sasl t' = Some s' \<and> desired_state s' = SASL_POSTED_INIT
               \<and> client s' = client (fresh_context True))
   \<and> sasl (fresh_transport False) = None
   \<and> reachable listed_value accepting_impl (pn_sasl (fresh_transport False))
        (pn_sasl (fresh_transport False))
   \<and> \<not> server_only (last_state (fresh_context True))"
proof -
  have s: "sasl (pn_sasl (fresh_transport False)) = Some (fresh_context True)"
    using sasl_fresh [of False] by simp
  have n: "sasl (fresh_transport False) = None"
    by (simp add: fresh_transport_def)
  have r: "reachable listed_value accepting_impl (pn_sasl (fresh_transport False))
        (pn_sasl (fresh_transport False))"
    by (rule reachable.created)
  have l1: "\<not> legal_for_role (client (fresh_context True)) SASL_POSTED_MECHANISMS"
    by (simp add: legal_for_role_def fresh_context_def pni_sasl_is_client_state_def)
  have l2: "legal_for_role (client (fresh_context True)) SASL_POSTED_INIT"
    by (simp add: legal_for_role_def fresh_context_def pni_sasl_is_client_state_def)
  have o: "\<not> listed_value SASL_POSTED_INIT < listed_value (last_state (fresh_context True))"
    by (simp add: fresh_context_def)
  have c: "client (fresh_context True)"
    by (simp add: fresh_context_def)
  from set_desired_state_guards_role [OF s, of listed_value SASL_POSTED_MECHANISMS accepting_impl]
       set_desired_state_guards_role [OF s, of listed_value SASL_POSTED_INIT accepting_impl]
       s n r l1 l2 o c
  show ?thesis by blast
qed

subsection \<open>Events of a request\<close>

text \<open>
  The events in the collector of the connection of a transport, and whether it has one.
\<close>

definition events :: "pn_transport_t \<Rightarrow> pn_event_type_t list" where
  "events transport =
     (case connection transport of
        None \<Rightarrow> []
      | Some c \<Rightarrow> (case collector c of None \<Rightarrow> [] | Some q \<Rightarrow> q))"

definition has_collector :: "pn_transport_t \<Rightarrow> bool" where
  "has_collector transport \<longleftrightarrow>
     (case connection transport of None \<Rightarrow> False | Some c \<Rightarrow> collector c \<noteq> None)"

lemma events_pni_emit:
  "events (pni_emit t) = events t @ (if has_collector t then [PN_TRANSPORT] else [])"
  by (simp add: events_def has_collector_def pni_emit_def pn_collector_put_def
           split: option.splits)

lemma events_sasl_update [simp]: "events (t\<lparr>sasl := x\<rparr>) = events t"
  by (simp add: events_def)

lemma events_log_update [simp]: "events (t\<lparr>log := x\<rparr>) = events t"
  by (simp add: events_def)

lemma has_collector_sasl_update [simp]: "has_collector (t\<lparr>sasl := x\<rparr>) = has_collector t"
  by (simp add: has_collector_def)

text \<open>
  C8, as amended. A call of \<^verbatim>\<open>pni_sasl_set_desired_state\<close> on a transport with a SASL
  context puts one \<^verbatim>\<open>PN_TRANSPORT\<close> event when the request is applied and the transport
  has a connection with a collector; a request dropped as a downgrade or a role violation
  puts no event.
\<close>

theorem set_desired_state_emits_when_applied:
  assumes t: "sasl t = Some s"
  shows "\<exists>t'. pni_sasl_set_desired_state ev t d = Inr t'
           \<and> events t' = events t @
               (if \<not> ev d < ev (last_state s) \<and> legal_for_role (client s) d \<and> has_collector t
                then [PN_TRANSPORT] else [])"
proof (cases "ev d < ev (last_state s) \<or> \<not> legal_for_role (client s) d")
  case True
  from set_desired_state_rejects [OF t True] obtain line
    where "pni_sasl_set_desired_state ev t d = Inr (t\<lparr>log := log t @ [line]\<rparr>)"
    by blast
  with True show ?thesis by auto
next
  case False
  then have a: "\<not> ev d < ev (last_state s)" and l: "legal_for_role (client s) d"
    by simp_all
  from set_desired_state_applies [OF t a l] a l show ?thesis
    by (simp add: events_pni_emit)
qed

theorem set_desired_state_emits_when_applied_witness:
  "sasl (pn_sasl (fresh_transport False)) = Some (fresh_context True)
   \<and> (\<exists>t'. pni_sasl_set_desired_state listed_value (pn_sasl (fresh_transport False))
              SASL_POSTED_INIT = Inr t'
            \<and> events t' = [PN_TRANSPORT])"
proof -
  have s: "sasl (pn_sasl (fresh_transport False)) = Some (fresh_context True)"
    using sasl_fresh [of False] by simp
  have e: "events (pn_sasl (fresh_transport False)) = []"
    and h: "has_collector (pn_sasl (fresh_transport False))"
    by (simp_all add: events_def has_collector_def pn_sasl_def fresh_transport_def)
  have l: "legal_for_role (client (fresh_context True)) SASL_POSTED_INIT"
    and o: "\<not> listed_value SASL_POSTED_INIT < listed_value (last_state (fresh_context True))"
    by (simp_all add: legal_for_role_def fresh_context_def pni_sasl_is_client_state_def)
  from set_desired_state_emits_when_applied [OF s, of listed_value SASL_POSTED_INIT] s e h l o
  show ?thesis by simp
qed

text \<open>
  The claim as stated fails: a client that requests the server state
  \<^verbatim>\<open>SASL_POSTED_MECHANISMS\<close> gets a log line and no event, although its connection has
  a collector.
\<close>

theorem set_desired_state_dropped_is_silent:
  "has_collector (pn_sasl (fresh_transport False))
   \<and> events (pn_sasl (fresh_transport False)) = []
   \<and> pni_sasl_set_desired_state listed_value (pn_sasl (fresh_transport False))
        SASL_POSTED_MECHANISMS
     = Inr ((pn_sasl (fresh_transport False))
              \<lparr>log := [(''Trying to send server SASL frame (%d) on a client'',
                        [State SASL_POSTED_MECHANISMS])]\<rparr>)
   \<and> events ((pn_sasl (fresh_transport False))
              \<lparr>log := [(''Trying to send server SASL frame (%d) on a client'',
                        [State SASL_POSTED_MECHANISMS])]\<rparr>) = []"
  by (simp add: events_def has_collector_def pn_sasl_def fresh_transport_def
        pni_sasl_set_desired_state_def pn_transport_logf_def pni_sasl_is_client_state_def)

subsection \<open>Repeated CHALLENGE and RESPONSE frames\<close>

lemma set_desired_state_changes_last:
  assumes t: "sasl t = Some s"
    and r: "pni_sasl_set_desired_state ev t d = Inr t'" "sasl t' = Some s'"
    and c: "last_state s' \<noteq> last_state s"
  shows "d = SASL_POSTED_RESPONSE \<and> last_state s = SASL_POSTED_RESPONSE
             \<and> last_state s' = SASL_POSTED_INIT
       \<or> d = SASL_POSTED_CHALLENGE \<and> last_state s = SASL_POSTED_CHALLENGE
             \<and> last_state s' = SASL_POSTED_MECHANISMS"
proof (cases "ev d < ev (last_state s) \<or> \<not> legal_for_role (client s) d")
  case True
  from set_desired_state_rejects [OF t True] r t c show ?thesis
    by auto
next
  case False
  then have a: "\<not> ev d < ev (last_state s)" and l: "legal_for_role (client s) d"
    by simp_all
  from set_desired_state_applies [OF t a l] r
  have "last_state s' = rewound s d" by auto
  with c show ?thesis
    by (simp add: rewound_def split: if_splits)
qed

lemma repeat_response:
  assumes t: "sasl t = Some s" and l: "legal_for_role (client s) (last_state s)"
    and o: "ev SASL_POSTED_INIT < ev SASL_POSTED_RESPONSE"
    and r: "last_state s = SASL_POSTED_RESPONSE"
  shows "\<exists>t1 t2. pni_sasl_set_desired_state ev t SASL_POSTED_RESPONSE = Inr t1
           \<and> sasl t1 = Some (s\<lparr>last_state := SASL_POSTED_INIT,
                                desired_state := SASL_POSTED_RESPONSE\<rparr>)
           \<and> pni_post_sasl_frame ev impl t1 = Inr t2
           \<and> frames t2 = frames t @ [SASL_RESPONSE (bytes_out s)]
           \<and> sasl t2 = Some (s\<lparr>last_state := SASL_POSTED_RESPONSE,
                                desired_state := SASL_POSTED_RESPONSE\<rparr>)"
proof -
  from l r have a: "\<not> ev SASL_POSTED_RESPONSE < ev (last_state s)"
    and b: "legal_for_role (client s) SASL_POSTED_RESPONSE"
    by simp_all
  have "pni_sasl_set_desired_state ev t SASL_POSTED_RESPONSE =
      Inr (pni_emit (t\<lparr>sasl := Some (s\<lparr>last_state := SASL_POSTED_INIT,
                                         desired_state := SASL_POSTED_RESPONSE\<rparr>)\<rparr>))"
    using set_desired_state_applies [OF t a b] r by (simp add: rewound_def)
  with o show ?thesis
    by (simp add: pni_post_sasl_frame_def loop_step loop_exit pn_post_frame_def)
qed

lemma repeat_challenge:
  assumes t: "sasl t = Some s" and l: "legal_for_role (client s) (last_state s)"
    and o: "ev SASL_POSTED_MECHANISMS < ev SASL_POSTED_CHALLENGE"
    and r: "last_state s = SASL_POSTED_CHALLENGE"
  shows "\<exists>t1 t2. pni_sasl_set_desired_state ev t SASL_POSTED_CHALLENGE = Inr t1
           \<and> sasl t1 = Some (s\<lparr>last_state := SASL_POSTED_MECHANISMS,
                                desired_state := SASL_POSTED_CHALLENGE\<rparr>)
           \<and> pni_post_sasl_frame ev impl t1 = Inr t2
           \<and> frames t2 = frames t @ [SASL_CHALLENGE (bytes_out s)]
           \<and> sasl t2 = Some (s\<lparr>last_state := SASL_POSTED_CHALLENGE,
                                desired_state := SASL_POSTED_CHALLENGE\<rparr>)"
proof -
  from l r have a: "\<not> ev SASL_POSTED_CHALLENGE < ev (last_state s)"
    and b: "legal_for_role (client s) SASL_POSTED_CHALLENGE"
    by simp_all
  have "pni_sasl_set_desired_state ev t SASL_POSTED_CHALLENGE =
      Inr (pni_emit (t\<lparr>sasl := Some (s\<lparr>last_state := SASL_POSTED_MECHANISMS,
                                         desired_state := SASL_POSTED_CHALLENGE\<rparr>)\<rparr>))"
    using set_desired_state_applies [OF t a b] r by (simp add: rewound_def)
  with o show ?thesis
    by (simp add: pni_post_sasl_frame_def loop_step loop_exit pn_post_frame_def)
qed

lemma post_sasl_frame_monotone:
  assumes "sasl t = Some s" "pni_post_sasl_frame ev impl t = Inr t'" "sasl t' = Some s'"
  shows "ev (last_state s) \<le> ev (last_state s')"
  using post_sasl_frame_last_state [OF assms(1,2)] assms(3) drained_last_monotone [of ev s]
  by auto

text \<open>
  C3. On a context whose \<^verbatim>\<open>last_state\<close> is legal for its role, with
  \<^verbatim>\<open>SASL_POSTED_INIT\<close> numbered below \<^verbatim>\<open>SASL_POSTED_RESPONSE\<close> and
  \<^verbatim>\<open>SASL_POSTED_MECHANISMS\<close> below \<^verbatim>\<open>SASL_POSTED_CHALLENGE\<close>: requesting
  \<^verbatim>\<open>SASL_POSTED_RESPONSE\<close> when \<^verbatim>\<open>last_state\<close> is already \<^verbatim>\<open>SASL_POSTED_RESPONSE\<close>
  rewinds \<^verbatim>\<open>last_state\<close> to \<^verbatim>\<open>SASL_POSTED_INIT\<close>, and the next posting posts exactly one
  more RESPONSE frame and returns to \<^verbatim>\<open>SASL_POSTED_RESPONSE\<close>; likewise for
  \<^verbatim>\<open>SASL_POSTED_CHALLENGE\<close> and \<^verbatim>\<open>SASL_POSTED_MECHANISMS\<close>. A request changes
  \<^verbatim>\<open>last_state\<close> in these two cases only, and posting never lowers it.
\<close>

theorem repeat_requests_rewind:
  assumes t: "sasl t = Some s" and l: "legal_for_role (client s) (last_state s)"
    and o1: "ev SASL_POSTED_INIT < ev SASL_POSTED_RESPONSE"
    and o2: "ev SASL_POSTED_MECHANISMS < ev SASL_POSTED_CHALLENGE"
  shows "(last_state s = SASL_POSTED_RESPONSE \<longrightarrow>
           (\<exists>t1 t2. pni_sasl_set_desired_state ev t SASL_POSTED_RESPONSE = Inr t1
              \<and> sasl t1 = Some (s\<lparr>last_state := SASL_POSTED_INIT,
                                   desired_state := SASL_POSTED_RESPONSE\<rparr>)
              \<and> pni_post_sasl_frame ev impl t1 = Inr t2
              \<and> frames t2 = frames t @ [SASL_RESPONSE (bytes_out s)]
              \<and> sasl t2 = Some (s\<lparr>last_state := SASL_POSTED_RESPONSE,
                                   desired_state := SASL_POSTED_RESPONSE\<rparr>)))
       \<and> (last_state s = SASL_POSTED_CHALLENGE \<longrightarrow>
           (\<exists>t1 t2. pni_sasl_set_desired_state ev t SASL_POSTED_CHALLENGE = Inr t1
              \<and> sasl t1 = Some (s\<lparr>last_state := SASL_POSTED_MECHANISMS,
                                   desired_state := SASL_POSTED_CHALLENGE\<rparr>)
              \<and> pni_post_sasl_frame ev impl t1 = Inr t2
              \<and> frames t2 = frames t @ [SASL_CHALLENGE (bytes_out s)]
              \<and> sasl t2 = Some (s\<lparr>last_state := SASL_POSTED_CHALLENGE,
                                   desired_state := SASL_POSTED_CHALLENGE\<rparr>)))
       \<and> (\<forall>d t' s'. pni_sasl_set_desired_state ev t d = Inr t' \<and> sasl t' = Some s'
              \<and> last_state s' \<noteq> last_state s \<longrightarrow>
            d = SASL_POSTED_RESPONSE \<and> last_state s = SASL_POSTED_RESPONSE
              \<and> last_state s' = SASL_POSTED_INIT
          \<or> d = SASL_POSTED_CHALLENGE \<and> last_state s = SASL_POSTED_CHALLENGE
              \<and> last_state s' = SASL_POSTED_MECHANISMS)
       \<and> (\<forall>t' s'. pni_post_sasl_frame ev impl t = Inr t' \<and> sasl t' = Some s' \<longrightarrow>
            ev (last_state s) \<le> ev (last_state s'))"
proof (intro conjI impI allI)
  assume "last_state s = SASL_POSTED_RESPONSE"
  then show "\<exists>t1 t2. pni_sasl_set_desired_state ev t SASL_POSTED_RESPONSE = Inr t1
              \<and> sasl t1 = Some (s\<lparr>last_state := SASL_POSTED_INIT,
                                   desired_state := SASL_POSTED_RESPONSE\<rparr>)
              \<and> pni_post_sasl_frame ev impl t1 = Inr t2
              \<and> frames t2 = frames t @ [SASL_RESPONSE (bytes_out s)]
              \<and> sasl t2 = Some (s\<lparr>last_state := SASL_POSTED_RESPONSE,
                                   desired_state := SASL_POSTED_RESPONSE\<rparr>)"
    by (rule repeat_response [OF t l o1])
next
  assume "last_state s = SASL_POSTED_CHALLENGE"
  then show "\<exists>t1 t2. pni_sasl_set_desired_state ev t SASL_POSTED_CHALLENGE = Inr t1
              \<and> sasl t1 = Some (s\<lparr>last_state := SASL_POSTED_MECHANISMS,
                                   desired_state := SASL_POSTED_CHALLENGE\<rparr>)
              \<and> pni_post_sasl_frame ev impl t1 = Inr t2
              \<and> frames t2 = frames t @ [SASL_CHALLENGE (bytes_out s)]
              \<and> sasl t2 = Some (s\<lparr>last_state := SASL_POSTED_CHALLENGE,
                                   desired_state := SASL_POSTED_CHALLENGE\<rparr>)"
    by (rule repeat_challenge [OF t l o2])
next
  fix d t' s'
  assume "pni_sasl_set_desired_state ev t d = Inr t' \<and> sasl t' = Some s'
              \<and> last_state s' \<noteq> last_state s"
  then show "d = SASL_POSTED_RESPONSE \<and> last_state s = SASL_POSTED_RESPONSE
              \<and> last_state s' = SASL_POSTED_INIT
          \<or> d = SASL_POSTED_CHALLENGE \<and> last_state s = SASL_POSTED_CHALLENGE
              \<and> last_state s' = SASL_POSTED_MECHANISMS"
    using set_desired_state_changes_last [OF t, of ev d t' s'] by blast
next
  fix t' s'
  assume "pni_post_sasl_frame ev impl t = Inr t' \<and> sasl t' = Some s'"
  then show "ev (last_state s) \<le> ev (last_state s')"
    using post_sasl_frame_monotone [OF t, of ev impl t' s'] by blast
qed

text \<open>
  A client that has posted its RESPONSE: the witness applies the theorem to it.
\<close>

definition responded_context :: pni_sasl_t where
  "responded_context =
     (fresh_context True)\<lparr>last_state := SASL_POSTED_RESPONSE,
                           desired_state := SASL_POSTED_RESPONSE\<rparr>"

definition responded_client :: pn_transport_t where
  "responded_client = (pn_sasl (fresh_transport False))\<lparr>sasl := Some responded_context\<rparr>"

theorem repeat_requests_rewind_witness:
  "sasl responded_client = Some responded_context
   \<and> legal_for_role (client responded_context) (last_state responded_context)
   \<and> listed_value SASL_POSTED_INIT < listed_value SASL_POSTED_RESPONSE
   \<and> listed_value SASL_POSTED_MECHANISMS < listed_value SASL_POSTED_CHALLENGE
   \<and> last_state responded_context = SASL_POSTED_RESPONSE
   \<and> (\<exists>t1 t2. pni_sasl_set_desired_state listed_value responded_client SASL_POSTED_RESPONSE
                 = Inr t1
              \<and> sasl t1 = Some (responded_context\<lparr>last_state := SASL_POSTED_INIT,
                                   desired_state := SASL_POSTED_RESPONSE\<rparr>)
              \<and> pni_post_sasl_frame listed_value accepting_impl t1 = Inr t2
              \<and> frames t2 = frames responded_client @ [SASL_RESPONSE (bytes_out responded_context)]
              \<and> sasl t2 = Some (responded_context\<lparr>last_state := SASL_POSTED_RESPONSE,
                                   desired_state := SASL_POSTED_RESPONSE\<rparr>))"
proof -
  have s: "sasl responded_client = Some responded_context"
    by (simp add: responded_client_def)
  have l: "legal_for_role (client responded_context) (last_state responded_context)"
    by (simp add: responded_context_def fresh_context_def legal_for_role_def
          pni_sasl_is_client_state_def)
  have o1: "listed_value SASL_POSTED_INIT < listed_value SASL_POSTED_RESPONSE"
    and o2: "listed_value SASL_POSTED_MECHANISMS < listed_value SASL_POSTED_CHALLENGE"
    by simp_all
  have r: "last_state responded_context = SASL_POSTED_RESPONSE"
    by (simp add: responded_context_def)
  from repeat_requests_rewind [OF s l o1 o2, of accepting_impl] s l o1 o2 r
  show ?thesis by blast
qed

subsection \<open>The public handle\<close>

text \<open>
  C10. With a NULL handle \<^verbatim>\<open>get_sasl_internal\<close> returns NULL, \<^verbatim>\<open>pn_sasl_outcome\<close> returns
  \<^verbatim>\<open>PN_SASL_NONE\<close> and \<^verbatim>\<open>pn_sasl_done\<close> leaves nothing changed; the same holds for a
  handle to a transport that has no SASL context, which \<^verbatim>\<open>pn_sasl_done\<close> returns as it
  was.
\<close>

theorem null_handle_outcome_and_done:
  "get_sasl_internal None = None
   \<and> pn_sasl_outcome None = PN_SASL_NONE
   \<and> pn_sasl_done None oc = None
   \<and> pn_sasl_outcome (Some (t\<lparr>sasl := None\<rparr>)) = PN_SASL_NONE
   \<and> pn_sasl_done (Some (t\<lparr>sasl := None\<rparr>)) oc = Some (t\<lparr>sasl := None\<rparr>)"
  by (simp add: get_sasl_internal_def pn_sasl_outcome_def pn_sasl_done_def)

lemma sasl_done_sets_outcome:
  "sasl t = Some s \<Longrightarrow>
     pn_sasl_done (Some t) oc = Some (t\<lparr>sasl := Some (s\<lparr>outcome := oc\<rparr>)\<rparr>)
   \<and> pn_sasl_outcome (pn_sasl_done (Some t) oc) = oc"
  by (simp add: get_sasl_internal_def pn_sasl_outcome_def pn_sasl_done_def)

subsection \<open>The allow-list set by the application\<close>

lemma allowed_mechs_string:
  assumes "sasl t = Some s"
  shows "pn_sasl_allowed_mechs ev impl (Some t) (Some m) =
           (if m = ''ANONYMOUS''
            then pni_sasl_force_anonymous ev impl
                   (t\<lparr>sasl := Some (s\<lparr>included_mechanisms := Some m\<rparr>)\<rparr>)
            else Inr (t\<lparr>sasl := Some (s\<lparr>included_mechanisms := Some m\<rparr>)\<rparr>))"
  using assms
  by (simp add: pn_sasl_allowed_mechs_def get_transport_internal_def get_sasl_internal_def)

text \<open>
  C7 fails on the code. With a NULL list the call stores NULL in
  \<^verbatim>\<open>included_mechanisms\<close> and then passes the NULL pointer to \<^verbatim>\<open>strcmp\<close>, which reads
  through it: the call is undefined. This is the model's value at that input, for any
  transport with a SASL context.
\<close>

theorem allowed_mechs_null_list_undefined:
  "pn_sasl_allowed_mechs ev impl (Some (t\<lparr>sasl := Some s\<rparr>)) None = Inl Null_dereference"
  by (simp add: pn_sasl_allowed_mechs_def get_transport_internal_def get_sasl_internal_def)

subsection \<open>The array of advertised mechanisms\<close>

lemma included_mech_content:
  "content x = content y \<Longrightarrow> pni_included_mech included x = pni_included_mech included y"
  by (simp add: pni_included_mech_def split: option.splits)

lemma cstring_at_token:
  assumes se: "start \<le> e" and el: "e \<le> length buf"
    and tok: "\<forall>i. start \<le> i \<and> i < e \<longrightarrow> buf ! i \<noteq> NUL"
    and stop: "e < length buf \<longrightarrow> buf ! e = NUL"
  shows "cstring_at buf start = take (e - start) (drop start buf)"
proof -
  have split: "drop start buf = take (e - start) (drop start buf) @ drop e buf"
  proof -
    have "drop (e - start) (drop start buf) = drop e buf"
      using se by simp
    then show ?thesis
      by (metis append_take_drop_id)
  qed
  have all: "\<forall>x \<in> set (take (e - start) (drop start buf)). x \<noteq> NUL"
  proof
    fix x assume "x \<in> set (take (e - start) (drop start buf))"
    then obtain i where i: "i < length (take (e - start) (drop start buf))"
      "x = take (e - start) (drop start buf) ! i"
      by (auto simp: in_set_conv_nth)
    then have "i < e - start" "start + i < length buf"
      by auto
    then have "x = buf ! (start + i)"
      using i by simp
    with tok \<open>i < e - start\<close> show "x \<noteq> NUL"
      by simp
  qed
  have rest: "takeWhile (\<lambda>x. x \<noteq> NUL) (drop e buf) = []"
  proof (cases "e < length buf")
    case True
    with stop have "drop e buf = NUL # drop (Suc e) buf"
      by (metis Cons_nth_drop_Suc)
    then show ?thesis by simp
  next
    case False
    then show ?thesis by simp
  qed
  have "cstring_at buf start
      = takeWhile (\<lambda>x. x \<noteq> NUL) (take (e - start) (drop start buf) @ drop e buf)"
    unfolding cstring_at_def using split by simp
  also have "\<dots> = take (e - start) (drop start buf) @ takeWhile (\<lambda>x. x \<noteq> NUL) (drop e buf)"
    using all by (simp add: takeWhile_append2)
  finally show ?thesis
    using rest by simp
qed

lemma take_drop_agree:
  assumes "length b' = length b" "\<forall>i<k. b' ! i = b ! i" "start + n \<le> k"
  shows "take n (drop start b') = take n (drop start b)"
  using assms by (intro nth_equalityI) auto

lemma cstring_at_agree:
  assumes len: "length b' = length b" and agree: "\<forall>i<Suc e. b' ! i = b ! i"
    and se: "start \<le> e" and el: "e \<le> length b"
    and tok: "\<forall>i. start \<le> i \<and> i < e \<longrightarrow> b ! i \<noteq> NUL"
    and stop: "e < length b \<longrightarrow> b ! e = NUL"
  shows "cstring_at b' start = take (e - start) (drop start b)"
proof -
  have "cstring_at b' start = take (e - start) (drop start b')"
  proof (rule cstring_at_token [OF se])
    show "e \<le> length b'" using el len by simp
    show "\<forall>i. start \<le> i \<and> i < e \<longrightarrow> b' ! i \<noteq> NUL"
      using tok agree by simp
    show "e < length b' \<longrightarrow> b' ! e = NUL"
      using stop agree len by simp
  qed
  also have "\<dots> = take (e - start) (drop start b)"
    using se by (intro take_drop_agree [OF len, of "Suc e"]) (use agree in auto)
  finally show ?thesis .
qed

lemma split_loop_tokens:
  assumes "pni_split_loop included cap buf mechs start e = Inr (buf', mechs')"
    and "length mechs \<le> cap" and "start \<le> e" and "e \<le> length buf"
    and "\<forall>i. start \<le> i \<and> i < e \<longrightarrow> buf ! i \<noteq> NUL"
  shows "length mechs' \<le> cap \<and> length buf' = length buf
       \<and> (\<forall>i<start. buf' ! i = buf ! i)
       \<and> (\<exists>new. mechs' = mechs @ new
            \<and> (\<forall>off \<in> set new. start \<le> off
                  \<and> pni_included_mech included
                      \<lparr>content = cstring_at buf' off, following = []\<rparr>))"
  using assms
proof (induction included cap buf mechs start e rule: pni_split_loop.induct)
  case (1 included cap buf mechs start e)
  note step = "1.prems"(1) [unfolded pni_split_loop.simps [of included cap buf mechs start e]]
  note cap = "1.prems"(2) and se = "1.prems"(3) and el = "1.prems"(4) and tok = "1.prems"(5)
  show ?case
  proof (cases "e < length buf \<and> buf ! e \<noteq> NUL")
    case scan: True
    then have el': "e + 1 \<le> length buf" by simp
    show ?thesis
    proof (cases "buf ! e = CHR '' ''")
      case space: True
      show ?thesis
      proof (cases "start \<noteq> e")
        case token: True
        let ?b = "buf[e := NUL]"
        have lb: "e + 1 \<le> length ?b" using el' by simp
        have vac: "\<forall>i. e + 1 \<le> i \<and> i < e + 1 \<longrightarrow> ?b ! i \<noteq> NUL" by auto
        have keep: "\<forall>i<start. ?b ! i = buf ! i" using se by simp
        show ?thesis
        proof (cases "pni_included_mech included (pn_bytes ?b (e - start) start)")
          case inc: True
          show ?thesis
          proof (cases "length mechs < cap")
            case room: True
            with step scan space token inc
            have r: "pni_split_loop included cap ?b (mechs @ [start]) (e + 1) (e + 1)
                = Inr (buf', mechs')"
              by (simp add: Let_def)
            from room have c: "length (mechs @ [start]) \<le> cap" by simp
            from "1.IH"(1) [OF scan space token refl inc room r c le_refl lb vac]
            obtain new where n: "length mechs' \<le> cap" "length buf' = length ?b"
              "\<forall>i<e + 1. buf' ! i = ?b ! i" "mechs' = (mechs @ [start]) @ new"
              "\<forall>off \<in> set new. e + 1 \<le> off
                 \<and> pni_included_mech included \<lparr>content = cstring_at buf' off, following = []\<rparr>"
              by blast
            have cs: "cstring_at buf' start = take (e - start) (drop start ?b)"
            proof (rule cstring_at_agree [OF n(2)])
              show "\<forall>i<Suc e. buf' ! i = ?b ! i" using n(3) by simp
              show "start \<le> e" by (rule se)
              show "e \<le> length ?b" using el by simp
              show "\<forall>i. start \<le> i \<and> i < e \<longrightarrow> ?b ! i \<noteq> NUL" using tok by simp
              show "e < length ?b \<longrightarrow> ?b ! e = NUL" by simp
            qed
            have "content (pn_bytes ?b (e - start) start)
                = content \<lparr>content = cstring_at buf' start, following = []\<rparr>"
              using cs by (simp add: pn_bytes_def)
            from included_mech_content [OF this, of included] inc
            have st: "pni_included_mech included
                \<lparr>content = cstring_at buf' start, following = []\<rparr>"
              by simp
            have a: "\<forall>i<start. buf' ! i = buf ! i"
              using n(3) keep se by simp
            have b: "mechs' = mechs @ (start # new)" using n(4) by simp
            have d: "\<forall>off \<in> set (start # new). start \<le> off
                 \<and> pni_included_mech included \<lparr>content = cstring_at buf' off, following = []\<rparr>"
              using n(5) st se by auto
            from n(1) n(2) a b d show ?thesis
              by (intro conjI exI [of _ "start # new"]) simp_all
          next
            case False
            with step scan space token inc show ?thesis
              by (simp add: Let_def)
          qed
        next
          case exc: False
          with step scan space token
          have r: "pni_split_loop included cap ?b mechs (e + 1) (e + 1) = Inr (buf', mechs')"
            by (simp add: Let_def)
          from "1.IH"(2) [OF scan space token refl exc r cap le_refl lb vac]
          obtain new where n: "length mechs' \<le> cap" "length buf' = length ?b"
            "\<forall>i<e + 1. buf' ! i = ?b ! i" "mechs' = mechs @ new"
            "\<forall>off \<in> set new. e + 1 \<le> off
               \<and> pni_included_mech included \<lparr>content = cstring_at buf' off, following = []\<rparr>"
            by blast
          have a: "\<forall>i<start. buf' ! i = buf ! i"
            using n(3) keep se by simp
          have d: "\<forall>off \<in> set new. start \<le> off
               \<and> pni_included_mech included \<lparr>content = cstring_at buf' off, following = []\<rparr>"
            using n(5) se by auto
          from n(1) n(2) a n(4) d show ?thesis
            by (intro conjI exI [of _ new]) simp_all
        qed
      next
        case False
        then have eq: "start = e" by simp
        with step scan space
        have r: "pni_split_loop included cap buf mechs (e + 1) (e + 1) = Inr (buf', mechs')"
          by simp
        have vac: "\<forall>i. e + 1 \<le> i \<and> i < e + 1 \<longrightarrow> buf ! i \<noteq> NUL" by auto
        from "1.IH"(3) [OF scan space False r cap le_refl el' vac]
        obtain new where n: "length mechs' \<le> cap" "length buf' = length buf"
          "\<forall>i<e + 1. buf' ! i = buf ! i" "mechs' = mechs @ new"
          "\<forall>off \<in> set new. e + 1 \<le> off
             \<and> pni_included_mech included \<lparr>content = cstring_at buf' off, following = []\<rparr>"
          by blast
        have a: "\<forall>i<start. buf' ! i = buf ! i"
          using n(3) eq by simp
        have d: "\<forall>off \<in> set new. start \<le> off
             \<and> pni_included_mech included \<lparr>content = cstring_at buf' off, following = []\<rparr>"
          using n(5) eq by auto
        from n(1) n(2) a n(4) d show ?thesis
          by (intro conjI exI [of _ new]) simp_all
      qed
    next
      case False
      with step scan
      have r: "pni_split_loop included cap buf mechs start (e + 1) = Inr (buf', mechs')"
        by simp
      have se': "start \<le> e + 1" using se by simp
      have tok': "\<forall>i. start \<le> i \<and> i < e + 1 \<longrightarrow> buf ! i \<noteq> NUL"
        using tok scan by (auto simp: less_Suc_eq)
      from "1.IH"(4) [OF scan False r cap se' el' tok'] show ?thesis .
    qed
  next
    case stop: False
    then have st: "e < length buf \<longrightarrow> buf ! e = NUL" by simp
    show ?thesis
    proof (cases "start \<noteq> e \<and> pni_included_mech included (pn_bytes buf (e - start) start)")
      case True
      with step stop have m: "length mechs < cap" "mechs' = mechs @ [start]" "buf' = buf"
        by (simp_all split: if_splits)
      have cs: "cstring_at buf start = take (e - start) (drop start buf)"
        by (rule cstring_at_token [OF se el tok st])
      have "content (pn_bytes buf (e - start) start)
          = content \<lparr>content = cstring_at buf start, following = []\<rparr>"
        using cs by (simp add: pn_bytes_def)
      from included_mech_content [OF this, of included] True
      have "pni_included_mech included \<lparr>content = cstring_at buf start, following = []\<rparr>"
        by simp
      with m show ?thesis
        by (intro conjI exI [of _ "[start]"]) simp_all
    next
      case False
      with step stop have "mechs' = mechs" "buf' = buf"
        by (auto split: if_splits)
      with cap show ?thesis
        by simp
    qed
  qed
qed

text \<open>
  What holds of the MECHANISMS frame when the splitting stays inside the array: the
  frame carries at most sixteen mechanisms, and each of them is a string that
  \<^verbatim>\<open>pni_included_mech\<close> accepted.
\<close>

theorem posted_mechanisms_included:
  assumes "mechanisms_to_post impl transport included = Inr ms"
  shows "length ms \<le> 16
       \<and> (\<forall>m \<in> set ms. pni_included_mech included \<lparr>content = m, following = []\<rparr>)"
proof (cases "pni_sasl_impl_list_mechs impl transport")
  case (Pair n mechlist)
  show ?thesis
  proof (cases "n > 0")
    case True
    with assms Pair obtain ml buf' mechs' where ml: "mechlist = Some ml"
      and r: "pni_split_mechs ml included 16 [] = Inr (buf', mechs')"
      and ms: "ms = map (cstring_at buf') mechs'"
      by (auto simp: mechanisms_to_post_def split: option.splits sum.splits)
    from r have "pni_split_loop included 16 ml [] 0 0 = Inr (buf', mechs')"
      by (simp add: pni_split_mechs_def)
    from split_loop_tokens [OF this] ms show ?thesis
      by auto
  next
    case False
    with assms Pair show ?thesis
      by (auto simp: mechanisms_to_post_def)
  qed
qed

definition listing_impl :: sasl_impl where
  "listing_impl =
     \<lparr>pni_sasl_impl_list_mechs = (\<lambda>t. (2, Some ''PLAIN GSSAPI'')),
      pni_init_client = (\<lambda>t. (True, t)),
      pni_process_mechanisms = (\<lambda>t mechs. (True, t))\<rparr>"

theorem posted_mechanisms_included_witness:
  "mechanisms_to_post listing_impl (pn_sasl (fresh_transport True)) (Some ''gssapi'')
     = Inr [''GSSAPI'']
   \<and> length [''GSSAPI''] \<le> 16
   \<and> pni_included_mech (Some ''gssapi'') \<lparr>content = ''GSSAPI'', following = []\<rparr>"
proof -
  have s: "pni_split_mechs ''PLAIN GSSAPI'' (Some ''gssapi'') 16 []
      = Inr (''PLAIN'' @ [NUL] @ ''GSSAPI'', [6])"
    by code_simp
  have c: "cstring_at (''PLAIN'' @ [NUL] @ ''GSSAPI'') 6 = ''GSSAPI''"
    by code_simp
  have e: "mechanisms_to_post listing_impl (pn_sasl (fresh_transport True)) (Some ''gssapi'')
      = Inr [''GSSAPI'']"
    using s c by (simp add: mechanisms_to_post_def listing_impl_def)
  from posted_mechanisms_included [OF e] e show ?thesis
    by simp
qed

definition seventeen_mechs :: string where
  "seventeen_mechs = ''A B C D E F G H I J K L M N O P Q''"

text \<open>
  C6 fails on the code. \<^verbatim>\<open>pni_split_mechs\<close> stores every token that passes the
  allow-list and never compares \<^verbatim>\<open>*count\<close> with the length of the array. A list of
  seventeen mechanisms with no allow-list makes the seventeenth store fall outside the
  sixteen entries of \<^verbatim>\<open>mechs\<close>, in \<^verbatim>\<open>pni_split_mechs\<close> and so in the posting of the
  MECHANISMS frame; sixteen mechanisms fit.
\<close>

theorem split_mechs_seventeen_overflows:
  "pni_split_mechs seventeen_mechs None 16 [] = Inl Out_of_bounds
   \<and> mechanisms_to_post
        \<lparr>pni_sasl_impl_list_mechs = (\<lambda>t. (17, Some seventeen_mechs)),
         pni_init_client = (\<lambda>t. (True, t)),
         pni_process_mechanisms = (\<lambda>t mechs. (True, t))\<rparr>
        (pn_sasl (fresh_transport True)) None = Inl Out_of_bounds
   \<and> pni_split_mechs ''A B C D E F G H I J K L M N O P'' None 16 []
     = Inr (''A'' @ [NUL] @ ''B'' @ [NUL] @ ''C'' @ [NUL] @ ''D'' @ [NUL] @ ''E'' @ [NUL]
            @ ''F'' @ [NUL] @ ''G'' @ [NUL] @ ''H'' @ [NUL] @ ''I'' @ [NUL] @ ''J'' @ [NUL]
            @ ''K'' @ [NUL] @ ''L'' @ [NUL] @ ''M'' @ [NUL] @ ''N'' @ [NUL] @ ''O'' @ [NUL]
            @ ''P'',
            [0, 2, 4, 6, 8, 10, 12, 14, 16, 18, 20, 22, 24, 26, 28, 30])"
proof -
  have a: "pni_split_mechs seventeen_mechs None 16 [] = Inl Out_of_bounds"
    by code_simp
  have b: "pni_split_mechs ''A B C D E F G H I J K L M N O P'' None 16 []
     = Inr (''A'' @ [NUL] @ ''B'' @ [NUL] @ ''C'' @ [NUL] @ ''D'' @ [NUL] @ ''E'' @ [NUL]
            @ ''F'' @ [NUL] @ ''G'' @ [NUL] @ ''H'' @ [NUL] @ ''I'' @ [NUL] @ ''J'' @ [NUL]
            @ ''K'' @ [NUL] @ ''L'' @ [NUL] @ ''M'' @ [NUL] @ ''N'' @ [NUL] @ ''O'' @ [NUL]
            @ ''P'',
            [0, 2, 4, 6, 8, 10, 12, 14, 16, 18, 20, 22, 24, 26, 28, 30])"
    by code_simp
  from a b show ?thesis
    by (simp add: mechanisms_to_post_def)
qed

section \<open>Properties of the connection driver\<close>

lemma disconnected_condition:
  "condition (driver_transport (disconnected e d)) =
     (if pn_condition_is_set (condition (driver_transport d))
      then condition (driver_transport d) else Some e)"
  by (simp add: disconnected_def pn_transport_condition_def pn_condition_is_set_def
        set_error_condition_def pn_connection_driver_close_def Let_def)

lemma disconnected_closes:
  "read_closed (disconnected e d) \<and> write_closed (disconnected e d)"
  by (simp add: disconnected_def pn_connection_driver_close_def Let_def)

lemma disconnected_twice: "disconnected e2 (disconnected e1 d) = disconnected e1 d"
  by (simp add: disconnected_def pn_transport_condition_def pn_condition_is_set_def
        set_error_condition_def pn_connection_driver_close_def Let_def)

text \<open>
  C9. \<^verbatim>\<open>disconnected\<close> sets the condition of the transport to the given error when none
  is set and keeps it otherwise, and closes both halves of the driver. A second call,
  with any error, changes nothing: the driver is as the first call left it, so on a
  driver with no condition the condition recorded is the error of the first call.
\<close>

theorem disconnected_idempotent:
  "disconnected e2 (disconnected e1 d) = disconnected e1 d
   \<and> condition (driver_transport (disconnected e1 d)) =
       (if pn_condition_is_set (condition (driver_transport d))
        then condition (driver_transport d) else Some e1)
   \<and> (\<not> pn_condition_is_set (condition (driver_transport d)) \<longrightarrow>
        condition (driver_transport (disconnected e2 (disconnected e1 d))) = Some e1)
   \<and> read_closed (disconnected e1 d) \<and> write_closed (disconnected e1 d)"
  using disconnected_twice [of e2 e1 d] disconnected_condition [of e1 d]
    disconnected_closes [of e1 d]
  by simp

text \<open>
  An open driver on a fresh transport, disconnected with a first and then a second
  error.
\<close>

definition open_driver :: pn_connection_driver_t where
  "open_driver =
     \<lparr>driver_transport = fresh_transport False, read_closed = False, write_closed = False\<rparr>"

theorem disconnected_idempotent_witness:
  "\<not> pn_condition_is_set (condition (driver_transport open_driver))
   \<and> condition (driver_transport
        (disconnected \<lparr>name = ''second'', description = ''later''\<rparr>
           (disconnected \<lparr>name = ''first'', description = ''earlier''\<rparr> open_driver)))
     = Some \<lparr>name = ''first'', description = ''earlier''\<rparr>"
proof -
  have n: "\<not> pn_condition_is_set (condition (driver_transport open_driver))"
    by (simp add: open_driver_def fresh_transport_def pn_condition_is_set_def)
  from disconnected_idempotent
         [of "\<lparr>name = ''second'', description = ''later''\<rparr>"
             "\<lparr>name = ''first'', description = ''earlier''\<rparr>" open_driver] n
  show ?thesis by simp
qed

section \<open>Properties of the posting of frames\<close>

text \<open>
  The table of frame posting, in the words of the specification. A target may have a
  prerequisite state; for \<^verbatim>\<open>SASL_RECVED_OUTCOME\<close> it applies when the outcome is OK. The
  drain passes through the prerequisite first when \<^verbatim>\<open>last_state\<close> is below it, and then
  reaches the desired state. Each target has its declared frames.
\<close>

definition prerequisite :: "pn_sasl_outcome_t \<Rightarrow> pni_sasl_state \<Rightarrow> pni_sasl_state option" where
  "prerequisite oc target =
     (case target of
        SASL_POSTED_CHALLENGE \<Rightarrow> Some SASL_POSTED_MECHANISMS
      | SASL_POSTED_OUTCOME \<Rightarrow> Some SASL_POSTED_MECHANISMS
      | SASL_PRETEND_OUTCOME \<Rightarrow> Some SASL_POSTED_INIT
      | SASL_RECVED_OUTCOME \<Rightarrow> (if oc = PN_SASL_OK then Some SASL_POSTED_INIT else None)
      | _ \<Rightarrow> None)"

definition drain_targets :: "state_value \<Rightarrow> pni_sasl_t \<Rightarrow> pni_sasl_state list" where
  "drain_targets ev s =
     (if ev (last_state s) < ev (desired_state s) then
        (case prerequisite (outcome s) (desired_state s) of
           None \<Rightarrow> [desired_state s]
         | Some p \<Rightarrow>
             if ev (last_state s) < ev p then [p, desired_state s] else [desired_state s])
      else [])"

definition declared_frames :: "pni_sasl_t \<Rightarrow> string list \<Rightarrow> pni_sasl_state \<Rightarrow> sasl_frame list" where
  "declared_frames s mechs target =
     (case target of
        SASL_POSTED_INIT \<Rightarrow> [SASL_INIT (selected_mechanism s) (bytes_out s)]
      | SASL_POSTED_MECHANISMS \<Rightarrow> [SASL_MECHANISMS mechs]
      | SASL_POSTED_RESPONSE \<Rightarrow> [SASL_RESPONSE (bytes_out s)]
      | SASL_POSTED_CHALLENGE \<Rightarrow> [SASL_CHALLENGE (bytes_out s)]
      | SASL_POSTED_OUTCOME \<Rightarrow> [SASL_OUTCOME (outcome s)]
      | _ \<Rightarrow> [])"

lemmas table_simps = drain_targets_def declared_frames_def prerequisite_def pn_post_frame_def

lemmas post_simps = pni_post_sasl_frame_def loop_step loop_exit sasl_write_back

lemma drains:
  assumes t: "sasl t = Some s"
    and o1: "ev SASL_POSTED_INIT < ev SASL_PRETEND_OUTCOME"
    and o2: "ev SASL_POSTED_INIT < ev SASL_RECVED_OUTCOME"
    and o3: "ev SASL_POSTED_MECHANISMS < ev SASL_POSTED_CHALLENGE"
    and o4: "ev SASL_POSTED_MECHANISMS < ev SASL_POSTED_OUTCOME"
    and none: "ev SASL_NONE \<le> ev (last_state s)"
    and run: "ev (last_state s) < ev (desired_state s)"
    and m: "SASL_POSTED_MECHANISMS \<in> set (drain_targets ev s) \<Longrightarrow>
              mechanisms_to_post impl t (included_mechanisms s) = Inr mechs"
  shows "\<exists>t'. pni_post_sasl_frame ev impl t = Inr t'
           \<and> sasl t' = Some (s\<lparr>last_state := desired_state s\<rparr>)
           \<and> frames t' = frames t @ concat (map (declared_frames s mechs) (drain_targets ev s))"
proof (cases "desired_state s")
  case d: SASL_NONE
  with none run show ?thesis by simp
next
  case d: SASL_POSTED_INIT
  from run d have r: "ev (last_state s) < ev SASL_POSTED_INIT" by simp
  from d t r show ?thesis by (simp add: post_simps table_simps)
next
  case d: SASL_POSTED_RESPONSE
  from run d have r: "ev (last_state s) < ev SASL_POSTED_RESPONSE" by simp
  from d t r show ?thesis by (simp add: post_simps table_simps)
next
  case d: SASL_POSTED_MECHANISMS
  from run d have r: "ev (last_state s) < ev SASL_POSTED_MECHANISMS" by simp
  from m d r have "mechanisms_to_post impl t (included_mechanisms s) = Inr mechs"
    by (simp add: table_simps)
  with d t r show ?thesis by (simp add: post_simps table_simps)
next
  case d: SASL_POSTED_CHALLENGE
  from run d have r: "ev (last_state s) < ev SASL_POSTED_CHALLENGE" by simp
  show ?thesis
  proof (cases "ev (last_state s) < ev SASL_POSTED_MECHANISMS")
    case True
    from m d r True have "mechanisms_to_post impl t (included_mechanisms s) = Inr mechs"
      by (simp add: table_simps)
    with d t r o3 True show ?thesis by (simp add: post_simps table_simps)
  next
    case False
    with d t r show ?thesis by (simp add: post_simps table_simps)
  qed
next
  case d: SASL_POSTED_OUTCOME
  from run d have r: "ev (last_state s) < ev SASL_POSTED_OUTCOME" by simp
  show ?thesis
  proof (cases "ev (last_state s) < ev SASL_POSTED_MECHANISMS")
    case True
    from m d r True have "mechanisms_to_post impl t (included_mechanisms s) = Inr mechs"
      by (simp add: table_simps)
    with d t r o4 True show ?thesis by (simp add: post_simps table_simps)
  next
    case False
    with d t r show ?thesis by (simp add: post_simps table_simps)
  qed
next
  case d: SASL_PRETEND_OUTCOME
  from run d have r: "ev (last_state s) < ev SASL_PRETEND_OUTCOME" by simp
  show ?thesis
  proof (cases "ev (last_state s) < ev SASL_POSTED_INIT")
    case True
    with d t r o1 show ?thesis by (simp add: post_simps table_simps)
  next
    case False
    with d t r show ?thesis by (simp add: post_simps table_simps)
  qed
next
  case d: SASL_RECVED_OUTCOME
  from run d have r: "ev (last_state s) < ev SASL_RECVED_OUTCOME" by simp
  show ?thesis
  proof (cases "ev (last_state s) < ev SASL_POSTED_INIT \<and> outcome s = PN_SASL_OK")
    case True
    then have low: "ev (last_state s) < ev SASL_POSTED_INIT" and ok: "outcome s = PN_SASL_OK"
      by simp_all
    let ?out = "bytes_out s"
    let ?t1 = "pni_emit (pn_post_frame t (SASL_INIT (selected_mechanism s) ?out))"
    have 1: "pni_post_sasl_frame_loop ev impl ?out t s SASL_RECVED_OUTCOME
        = pni_post_sasl_frame_loop ev impl ?out t s SASL_POSTED_INIT"
      using loop_step [OF run, of impl ?out t SASL_RECVED_OUTCOME] low ok by simp
    have 2: "pni_post_sasl_frame_loop ev impl ?out t s SASL_POSTED_INIT
        = pni_post_sasl_frame_loop ev impl ?out ?t1
            (s\<lparr>last_state := SASL_POSTED_INIT\<rparr>) SASL_RECVED_OUTCOME"
      using loop_step [OF run, of impl ?out t SASL_POSTED_INIT] d by simp
    have c3: "ev (last_state (s\<lparr>last_state := SASL_POSTED_INIT\<rparr>))
        < ev (desired_state (s\<lparr>last_state := SASL_POSTED_INIT\<rparr>))"
      using o2 d by simp
    have 3: "pni_post_sasl_frame_loop ev impl ?out ?t1
            (s\<lparr>last_state := SASL_POSTED_INIT\<rparr>) SASL_RECVED_OUTCOME
        = pni_post_sasl_frame_loop ev impl ?out ?t1
            (s\<lparr>last_state := SASL_RECVED_OUTCOME\<rparr>) SASL_RECVED_OUTCOME"
      using loop_step [OF c3, of impl ?out ?t1 SASL_RECVED_OUTCOME] d by simp
    have 4: "pni_post_sasl_frame_loop ev impl ?out ?t1
            (s\<lparr>last_state := SASL_RECVED_OUTCOME\<rparr>) SASL_RECVED_OUTCOME
        = Inr (?t1\<lparr>sasl := Some (s\<lparr>last_state := SASL_RECVED_OUTCOME\<rparr>)\<rparr>)"
      using d by (simp add: loop_exit)
    have "pni_post_sasl_frame ev impl t
        = Inr (?t1\<lparr>sasl := Some (s\<lparr>last_state := SASL_RECVED_OUTCOME\<rparr>)\<rparr>)"
      using t d 1 2 3 4 by (simp add: pni_post_sasl_frame_def)
    moreover have "drain_targets ev s = [SASL_POSTED_INIT, SASL_RECVED_OUTCOME]"
      using d r low ok by (simp add: drain_targets_def prerequisite_def)
    ultimately show ?thesis
      using d by (simp add: declared_frames_def pn_post_frame_def)
  next
    case False
    let ?out = "bytes_out s"
    have 1: "pni_post_sasl_frame_loop ev impl ?out t s SASL_RECVED_OUTCOME
        = pni_post_sasl_frame_loop ev impl ?out t
            (s\<lparr>last_state := SASL_RECVED_OUTCOME\<rparr>) SASL_RECVED_OUTCOME"
      using loop_step [OF run, of impl ?out t SASL_RECVED_OUTCOME] False d by simp
    have 2: "pni_post_sasl_frame_loop ev impl ?out t
            (s\<lparr>last_state := SASL_RECVED_OUTCOME\<rparr>) SASL_RECVED_OUTCOME
        = Inr (t\<lparr>sasl := Some (s\<lparr>last_state := SASL_RECVED_OUTCOME\<rparr>)\<rparr>)"
      using d by (simp add: loop_exit)
    have "pni_post_sasl_frame ev impl t
        = Inr (t\<lparr>sasl := Some (s\<lparr>last_state := SASL_RECVED_OUTCOME\<rparr>)\<rparr>)"
      using t d 1 2 by (simp add: pni_post_sasl_frame_def)
    moreover have "drain_targets ev s = [SASL_RECVED_OUTCOME]"
      using d r False by (auto simp add: drain_targets_def prerequisite_def)
    ultimately show ?thesis
      using d by (simp add: declared_frames_def)
  qed
qed

lemma drains_overflow:
  assumes t: "sasl t = Some s"
    and run: "ev (last_state s) < ev (desired_state s)"
    and m: "SASL_POSTED_MECHANISMS \<in> set (drain_targets ev s)"
      "mechanisms_to_post impl t (included_mechanisms s) = Inl u"
  shows "pni_post_sasl_frame ev impl t = Inl u"
proof -
  from m(1) run have c: "desired_state s = SASL_POSTED_MECHANISMS
      \<or> (desired_state s = SASL_POSTED_CHALLENGE \<or> desired_state s = SASL_POSTED_OUTCOME)
        \<and> ev (last_state s) < ev SASL_POSTED_MECHANISMS"
    by (cases "desired_state s") (simp_all add: table_simps split: if_splits)
  then consider (mech) "desired_state s = SASL_POSTED_MECHANISMS"
    | (challenge) "desired_state s = SASL_POSTED_CHALLENGE"
        "ev (last_state s) < ev SASL_POSTED_MECHANISMS"
    | (outcome) "desired_state s = SASL_POSTED_OUTCOME"
        "ev (last_state s) < ev SASL_POSTED_MECHANISMS"
    by blast
  then show ?thesis
  proof cases
    case mech
    from run mech have r: "ev (last_state s) < ev SASL_POSTED_MECHANISMS" by simp
    from mech t r m(2) show ?thesis by (simp add: post_simps)
  next
    case challenge
    from run challenge have r: "ev (last_state s) < ev SASL_POSTED_CHALLENGE" by simp
    from challenge t r m(2) show ?thesis by (simp add: post_simps)
  next
    case outcome
    from run outcome have r: "ev (last_state s) < ev SASL_POSTED_OUTCOME" by simp
    from outcome t r m(2) show ?thesis by (simp add: post_simps)
  qed
qed

lemma drains_nothing:
  assumes t: "sasl t = Some s" and "\<not> ev (last_state s) < ev (desired_state s)"
  shows "pni_post_sasl_frame ev impl t = Inr t \<and> drain_targets ev s = []"
  using assms by (simp add: pni_post_sasl_frame_def loop_exit drain_targets_def)

text \<open>
  The contexts the drain is run on: every context reached from one whose \<^verbatim>\<open>last_state\<close>
  is not above its \<^verbatim>\<open>desired_state\<close> is such a context again, for a numbering that gives
  different states different values and puts each prerequisite and each rewound state
  below the states they belong to.
\<close>

lemma reachable_ordered:
  assumes r: "reachable ev impl t0 t" and t0: "sasl t0 = Some s0"
    and le0: "last_state s0 = desired_state s0 \<or> ev (last_state s0) < ev (desired_state s0)"
    and inj: "\<And>a b. ev a = ev b \<Longrightarrow> a = b"
    and o1: "ev SASL_POSTED_INIT < ev SASL_PRETEND_OUTCOME"
    and o2: "ev SASL_POSTED_INIT < ev SASL_RECVED_OUTCOME"
    and o3: "ev SASL_POSTED_MECHANISMS < ev SASL_POSTED_CHALLENGE"
    and o4: "ev SASL_POSTED_MECHANISMS < ev SASL_POSTED_OUTCOME"
    and o5: "ev SASL_POSTED_INIT < ev SASL_POSTED_RESPONSE"
  shows "\<exists>s. sasl t = Some s
           \<and> (last_state s = desired_state s \<or> ev (last_state s) < ev (desired_state s))"
  using r
proof (induction rule: reachable.induct)
  case created
  with t0 le0 show ?case by simp
next
  case (requested t d t')
  then obtain s where s: "sasl t = Some s"
    and le: "last_state s = desired_state s \<or> ev (last_state s) < ev (desired_state s)"
    by blast
  show ?case
  proof (cases "ev d < ev (last_state s) \<or> \<not> legal_for_role (client s) d")
    case True
    from set_desired_state_rejects [OF s True] requested.hyps(2) obtain line
      where "t' = t\<lparr>log := log t @ [line]\<rparr>"
      by auto
    with s le show ?thesis by simp
  next
    case False
    then have a: "\<not> ev d < ev (last_state s)" and l: "legal_for_role (client s) d"
      by simp_all
    from set_desired_state_applies [OF s a l] requested.hyps(2)
    have s': "sasl t' = Some (s\<lparr>last_state := rewound s d, desired_state := d\<rparr>)"
      by auto
    from a have "ev (last_state s) = ev d \<or> ev (last_state s) < ev d"
      by auto
    with inj have c: "last_state s = d \<or> ev (last_state s) < ev d"
      by blast
    have "rewound s d = d \<or> ev (rewound s d) < ev d"
      using c o3 o5 by (auto simp: rewound_def)
    with s' show ?thesis by simp
  qed
next
  case (posted t t')
  then obtain s where s: "sasl t = Some s"
    and le: "last_state s = desired_state s \<or> ev (last_state s) < ev (desired_state s)"
    by blast
  from post_sasl_frame_last_state [OF s posted.hyps(2)]
  have s': "sasl t' = Some (s\<lparr>last_state := drained_last ev s\<rparr>)" .
  have "drained_last ev s = desired_state s \<or> ev (drained_last ev s) < ev (desired_state s)"
    using le o1 o2 o3 o4
    by (cases "desired_state s")
       (auto simp: drained_last_def continues_def continue_target_def)
  with s' show ?case by simp
next
  case (outcome_set t oc t')
  then obtain s where s: "sasl t = Some s"
    and le: "last_state s = desired_state s \<or> ev (last_state s) < ev (desired_state s)"
    by blast
  with outcome_set.hyps(2) show ?case
    by (auto simp: pn_sasl_done_def get_sasl_internal_def)
qed

text \<open>
  The drain where the array of the MECHANISMS frame does not overflow. On a context whose
  \<^verbatim>\<open>last_state\<close> is not above its \<^verbatim>\<open>desired_state\<close>, for a numbering that puts
  \<^verbatim>\<open>SASL_NONE\<close> lowest and each prerequisite below the states that require it:
  \<^verbatim>\<open>pni_post_sasl_frame\<close> returns, \<^verbatim>\<open>last_state\<close> equals \<^verbatim>\<open>desired_state\<close>
  afterwards, and the frames posted are the declared frames of the prerequisite (when
  \<^verbatim>\<open>last_state\<close> was below it) followed by those of the desired state. The MECHANISMS
  frame carries the strings of \<^verbatim>\<open>mechanisms_to_post\<close>; when the array of that frame
  overflows, the posting is undefined as the overflow is.
\<close>

theorem post_sasl_frame_drains:
  assumes t: "sasl t = Some s"
    and o1: "ev SASL_POSTED_INIT < ev SASL_PRETEND_OUTCOME"
    and o2: "ev SASL_POSTED_INIT < ev SASL_RECVED_OUTCOME"
    and o3: "ev SASL_POSTED_MECHANISMS < ev SASL_POSTED_CHALLENGE"
    and o4: "ev SASL_POSTED_MECHANISMS < ev SASL_POSTED_OUTCOME"
    and none: "ev SASL_NONE \<le> ev (last_state s)"
    and le: "last_state s = desired_state s \<or> ev (last_state s) < ev (desired_state s)"
  shows "((SASL_POSTED_MECHANISMS \<in> set (drain_targets ev s) \<longrightarrow>
             mechanisms_to_post impl t (included_mechanisms s) = Inr mechs) \<longrightarrow>
          (\<exists>t'. pni_post_sasl_frame ev impl t = Inr t'
             \<and> sasl t' = Some (s\<lparr>last_state := desired_state s\<rparr>)
             \<and> frames t' =
                 frames t @ concat (map (declared_frames s mechs) (drain_targets ev s))))
       \<and> (SASL_POSTED_MECHANISMS \<in> set (drain_targets ev s)
            \<and> mechanisms_to_post impl t (included_mechanisms s) = Inl u \<longrightarrow>
          pni_post_sasl_frame ev impl t = Inl u)"
proof (cases "ev (last_state s) < ev (desired_state s)")
  case run: True
  show ?thesis
  proof (intro conjI impI)
    assume "SASL_POSTED_MECHANISMS \<in> set (drain_targets ev s) \<longrightarrow>
             mechanisms_to_post impl t (included_mechanisms s) = Inr mechs"
    then have m: "SASL_POSTED_MECHANISMS \<in> set (drain_targets ev s) \<Longrightarrow>
             mechanisms_to_post impl t (included_mechanisms s) = Inr mechs"
      by blast
    show "\<exists>t'. pni_post_sasl_frame ev impl t = Inr t'
             \<and> sasl t' = Some (s\<lparr>last_state := desired_state s\<rparr>)
             \<and> frames t' =
                 frames t @ concat (map (declared_frames s mechs) (drain_targets ev s))"
      by (rule drains [OF t o1 o2 o3 o4 none run m])
  next
    assume "SASL_POSTED_MECHANISMS \<in> set (drain_targets ev s)
            \<and> mechanisms_to_post impl t (included_mechanisms s) = Inl u"
    then show "pni_post_sasl_frame ev impl t = Inl u"
      using drains_overflow [OF t run] by blast
  qed
next
  case stay: False
  with le have same: "last_state s = desired_state s"
    by blast
  then have "s\<lparr>last_state := desired_state s\<rparr> = s"
    by (metis pni_sasl_t.surjective pni_sasl_t.update_convs(9))
  with drains_nothing [OF t stay, of impl] t show ?thesis
    by simp
qed

text \<open>
  A server whose desired state is \<^verbatim>\<open>SASL_POSTED_CHALLENGE\<close> and that has posted nothing
  yet: the drain posts MECHANISMS and then CHALLENGE.
\<close>

definition challenging_context :: pni_sasl_t where
  "challenging_context =
     (fresh_context False)\<lparr>desired_state := SASL_POSTED_CHALLENGE, bytes_out := ''nonce''\<rparr>"

definition challenging_server :: pn_transport_t where
  "challenging_server = (pn_sasl (fresh_transport True))\<lparr>sasl := Some challenging_context\<rparr>"

lemma split_anonymous: "pni_split_mechs ''ANONYMOUS'' None 16 [] = Inr (''ANONYMOUS'', [0])"
  by code_simp

lemma cstring_anonymous: "cstring_at ''ANONYMOUS'' 0 = ''ANONYMOUS''"
  by code_simp

lemma accepting_mechanisms:
  "mechanisms_to_post accepting_impl t None = Inr [''ANONYMOUS'']"
  by (simp add: mechanisms_to_post_def accepting_impl_def split_anonymous cstring_anonymous)

theorem post_sasl_frame_drains_witness:
  "sasl challenging_server = Some challenging_context
   \<and> listed_value SASL_POSTED_INIT < listed_value SASL_PRETEND_OUTCOME
   \<and> listed_value SASL_POSTED_INIT < listed_value SASL_RECVED_OUTCOME
   \<and> listed_value SASL_POSTED_MECHANISMS < listed_value SASL_POSTED_CHALLENGE
   \<and> listed_value SASL_POSTED_MECHANISMS < listed_value SASL_POSTED_OUTCOME
   \<and> listed_value SASL_NONE \<le> listed_value (last_state challenging_context)
   \<and> listed_value (last_state challenging_context)
        < listed_value (desired_state challenging_context)
   \<and> mechanisms_to_post accepting_impl challenging_server
        (included_mechanisms challenging_context) = Inr [''ANONYMOUS'']
   \<and> drain_targets listed_value challenging_context
        = [SASL_POSTED_MECHANISMS, SASL_POSTED_CHALLENGE]
   \<and> (\<exists>t'. pni_post_sasl_frame listed_value accepting_impl challenging_server = Inr t'
          \<and> sasl t' = Some (challenging_context\<lparr>last_state := SASL_POSTED_CHALLENGE\<rparr>)
          \<and> frames t' = [SASL_MECHANISMS [''ANONYMOUS''], SASL_CHALLENGE ''nonce''])"
proof -
  have s: "sasl challenging_server = Some challenging_context"
    by (simp add: challenging_server_def)
  have o: "listed_value SASL_POSTED_INIT < listed_value SASL_PRETEND_OUTCOME"
    "listed_value SASL_POSTED_INIT < listed_value SASL_RECVED_OUTCOME"
    "listed_value SASL_POSTED_MECHANISMS < listed_value SASL_POSTED_CHALLENGE"
    "listed_value SASL_POSTED_MECHANISMS < listed_value SASL_POSTED_OUTCOME"
    by simp_all
  have n: "listed_value SASL_NONE \<le> listed_value (last_state challenging_context)"
    and r: "listed_value (last_state challenging_context)
        < listed_value (desired_state challenging_context)"
    and d: "desired_state challenging_context = SASL_POSTED_CHALLENGE"
    and b: "bytes_out challenging_context = ''nonce''"
    and i: "included_mechanisms challenging_context = None"
    by (simp_all add: challenging_context_def fresh_context_def)
  have m: "mechanisms_to_post accepting_impl challenging_server
        (included_mechanisms challenging_context) = Inr [''ANONYMOUS'']"
    using i accepting_mechanisms by simp
  have g: "drain_targets listed_value challenging_context
        = [SASL_POSTED_MECHANISMS, SASL_POSTED_CHALLENGE]"
    by (simp add: drain_targets_def prerequisite_def challenging_context_def fresh_context_def)
  have f: "frames challenging_server = []"
    by (simp add: challenging_server_def pn_sasl_def fresh_transport_def)
  from r have le: "last_state challenging_context = desired_state challenging_context
      \<or> listed_value (last_state challenging_context)
           < listed_value (desired_state challenging_context)"
    by simp
  from post_sasl_frame_drains [OF s o n le, of accepting_impl "[''ANONYMOUS'']"] m g
  have "\<exists>t'. pni_post_sasl_frame listed_value accepting_impl challenging_server = Inr t'
          \<and> sasl t' = Some (challenging_context\<lparr>last_state := desired_state challenging_context\<rparr>)
          \<and> frames t' = frames challenging_server
               @ concat (map (declared_frames challenging_context [''ANONYMOUS''])
                   [SASL_POSTED_MECHANISMS, SASL_POSTED_CHALLENGE])"
    by simp
  then have "\<exists>t'. pni_post_sasl_frame listed_value accepting_impl challenging_server = Inr t'
          \<and> sasl t' = Some (challenging_context\<lparr>last_state := SASL_POSTED_CHALLENGE\<rparr>)
          \<and> frames t' = [SASL_MECHANISMS [''ANONYMOUS''], SASL_CHALLENGE ''nonce'']"
    using d b f by (simp add: declared_frames_def)
  with s o n r m g show ?thesis
    by simp
qed

text \<open>
  A backend that lists seventeen mechanisms, and a server that has been asked to
  advertise its mechanisms and has posted nothing yet.
\<close>

definition crowded_impl :: sasl_impl where
  "crowded_impl =
     \<lparr>pni_sasl_impl_list_mechs = (\<lambda>t. (17, Some seventeen_mechs)),
      pni_init_client = (\<lambda>t. (True, t)),
      pni_process_mechanisms = (\<lambda>t mechs. (True, t))\<rparr>"

definition advertising_context :: pni_sasl_t where
  "advertising_context = (fresh_context False)\<lparr>desired_state := SASL_POSTED_MECHANISMS\<rparr>"

definition advertising_server :: pn_transport_t where
  "advertising_server =
     pni_emit ((pn_sasl (fresh_transport True))\<lparr>sasl := Some advertising_context\<rparr>)"

lemma seventeen_do_not_fit: "pni_split_mechs seventeen_mechs None 16 [] = Inl Out_of_bounds"
  by code_simp

lemma crowded_mechanisms: "mechanisms_to_post crowded_impl t None = Inl Out_of_bounds"
  by (simp add: mechanisms_to_post_def crowded_impl_def seventeen_do_not_fit)

text \<open>
  C2 fails on the code. A server is asked for \<^verbatim>\<open>SASL_POSTED_MECHANISMS\<close>, as
  \<^verbatim>\<open>pni_sasl_set_desired_state\<close> accepts from a fresh context, and its backend lists
  seventeen mechanisms. \<^verbatim>\<open>pni_post_sasl_frame\<close> does not end with \<^verbatim>\<open>last_state\<close> equal
  to \<^verbatim>\<open>desired_state\<close>: the drain reaches the target \<^verbatim>\<open>SASL_POSTED_MECHANISMS\<close> and the
  seventeenth store of \<^verbatim>\<open>pni_split_mechs\<close> falls outside the array \<^verbatim>\<open>mechs\<close>, so what
  the call does from there on is undefined.
\<close>

theorem post_sasl_frame_seventeen_undefined:
  "pni_sasl_set_desired_state listed_value (pn_sasl (fresh_transport True))
       SASL_POSTED_MECHANISMS = Inr advertising_server
   \<and> sasl advertising_server = Some advertising_context
   \<and> last_state advertising_context = SASL_NONE
   \<and> desired_state advertising_context = SASL_POSTED_MECHANISMS
   \<and> pni_sasl_impl_list_mechs crowded_impl advertising_server = (17, Some seventeen_mechs)
   \<and> pni_post_sasl_frame listed_value crowded_impl advertising_server = Inl Out_of_bounds"
proof -
  have s: "sasl advertising_server = Some advertising_context"
    by (simp add: advertising_server_def)
  have l: "last_state advertising_context = SASL_NONE"
    and d: "desired_state advertising_context = SASL_POSTED_MECHANISMS"
    and i: "included_mechanisms advertising_context = None"
    by (simp_all add: advertising_context_def fresh_context_def)
  have q: "pni_sasl_set_desired_state listed_value (pn_sasl (fresh_transport True))
       SASL_POSTED_MECHANISMS = Inr advertising_server"
    by (simp add: pni_sasl_set_desired_state_def sasl_fresh fresh_context_def
          pni_sasl_is_server_state_def advertising_server_def advertising_context_def Let_def)
  have b: "pni_sasl_impl_list_mechs crowded_impl advertising_server = (17, Some seventeen_mechs)"
    by (simp add: crowded_impl_def)
  have run: "listed_value (last_state advertising_context)
      < listed_value (desired_state advertising_context)"
    using l d by simp
  have "pni_post_sasl_frame_loop listed_value crowded_impl (bytes_out advertising_context)
          advertising_server advertising_context SASL_POSTED_MECHANISMS = Inl Out_of_bounds"
    using loop_step [OF run, of crowded_impl "bytes_out advertising_context"
        advertising_server SASL_POSTED_MECHANISMS] s i
    by (simp add: crowded_mechanisms sasl_write_back)
  with s d have p: "pni_post_sasl_frame listed_value crowded_impl advertising_server
      = Inl Out_of_bounds"
    by (simp add: pni_post_sasl_frame_def)
  from q s l d b p show ?thesis
    by simp
qed

section \<open>Properties of the header reader\<close>

lemma header_mismatch_names_protocol:
  "sublist protocol_name (header_mismatch_description protocol_name quoted eos)"
  unfolding header_mismatch_description_def sublist_def
  by (rule exI [where x = "''SASL'' @ '' header mismatch: ''"], rule exI) simp

lemma header_mismatch_quotes_data:
  "sublist ([CHR 0x27] @ quoted @ [CHR 0x27])
     (header_mismatch_description protocol_name quoted eos)"
  unfolding header_mismatch_description_def sublist_def
  by (rule exI [where x = "''SASL'' @ '' header mismatch: '' @ protocol_name @ '' [''"],
      rule exI) simp

lemma read_sasl_header_sasl:
  assumes "sasl t = Some s" "layer < length (io_layers t)"
    "pni_sniff_header ext data = PNI_PROTOCOL_AMQP_SASL"
  shows "\<exists>t'. pn_input_read_sasl_header ext t layer data = Inr (Bytes 8, t')
           \<and> io_layers t' = (io_layers t)
                [layer := (if io_layers t ! layer = sasl_read_header_layer
                           then sasl_layer else sasl_write_header_layer)]
           \<and> close_sent t' = close_sent t \<and> condition t' = condition t"
  using assms
  by (simp add: pn_input_read_sasl_header_def pni_sasl_set_external_security_def
        pn_transport_logf_def SASL_HEADER_LEN_def Let_def)

lemma read_sasl_header_wait:
  assumes "pni_sniff_header ext data = PNI_PROTOCOL_INSUFFICIENT"
    "pn_transport_capacity ext t \<noteq> PN_EOS"
  shows "pn_input_read_sasl_header ext t layer data = Inr (Bytes 0, t)"
  using assms by (simp add: pn_input_read_sasl_header_def)

lemma read_sasl_header_mismatch:
  assumes "pni_sniff_header ext data = PNI_PROTOCOL_INSUFFICIENT
             \<and> pn_transport_capacity ext t = PN_EOS
         \<or> (\<exists>n. pni_sniff_header ext data = PNI_PROTOCOL_ANOTHER n)"
  shows "pn_input_read_sasl_header ext t layer data =
           Inr (PN_EOS,
                pn_set_error_layer ext
                  (pn_do_error ext (t\<lparr>close_sent := True\<rparr>) ''amqp:connection:framing-error''
                     (header_mismatch_description
                        (pni_protocol_name ext (pni_sniff_header ext data))
                        (pn_quote_data ext 1024 data)
                        (pn_transport_capacity ext t = PN_EOS))))"
  using assms
  by (auto simp: pn_input_read_sasl_header_def header_mismatch_def Let_def)

text \<open>
  C4. For every byte sequence \<open>data\<close> offered to \<^verbatim>\<open>pn_input_read_sasl_header\<close> on a
  transport with a SASL context, at a layer index inside \<^verbatim>\<open>io_layers\<close>: when the sniffer
  answers AMQP-SASL the call returns 8 and rewires the slot of the layer (to
  \<^verbatim>\<open>sasl_layer\<close> from \<^verbatim>\<open>sasl_read_header_layer\<close>, else to \<^verbatim>\<open>sasl_write_header_layer\<close>),
  leaving \<^verbatim>\<open>close_sent\<close> and the condition alone; when it answers insufficient and the
  transport is not at EOS the call returns 0 and changes nothing; when it answers
  insufficient at EOS, or any other protocol, the call sets \<^verbatim>\<open>close_sent\<close>, calls
  \<^verbatim>\<open>pn_do_error\<close> with the name \<^verbatim>\<open>amqp:connection:framing-error\<close> and a description that
  contains the name of the detected protocol and the quoted bytes between apostrophes,
  and returns EOS.
\<close>

theorem read_sasl_header_cases:
  assumes t: "sasl t = Some s" and l: "layer < length (io_layers t)"
  shows "(pni_sniff_header ext data = PNI_PROTOCOL_AMQP_SASL \<longrightarrow>
            (\<exists>t'. pn_input_read_sasl_header ext t layer data = Inr (Bytes 8, t')
               \<and> io_layers t' = (io_layers t)
                    [layer := (if io_layers t ! layer = sasl_read_header_layer
                               then sasl_layer else sasl_write_header_layer)]
               \<and> close_sent t' = close_sent t \<and> condition t' = condition t))
       \<and> (pni_sniff_header ext data = PNI_PROTOCOL_INSUFFICIENT
            \<and> pn_transport_capacity ext t \<noteq> PN_EOS \<longrightarrow>
          pn_input_read_sasl_header ext t layer data = Inr (Bytes 0, t))
       \<and> (pni_sniff_header ext data = PNI_PROTOCOL_INSUFFICIENT
              \<and> pn_transport_capacity ext t = PN_EOS
            \<or> (\<exists>n. pni_sniff_header ext data = PNI_PROTOCOL_ANOTHER n) \<longrightarrow>
          (\<exists>desc. pn_input_read_sasl_header ext t layer data =
                     Inr (PN_EOS,
                          pn_set_error_layer ext
                            (pn_do_error ext (t\<lparr>close_sent := True\<rparr>)
                               ''amqp:connection:framing-error'' desc))
             \<and> sublist (pni_protocol_name ext (pni_sniff_header ext data)) desc
             \<and> sublist ([CHR 0x27] @ pn_quote_data ext 1024 data @ [CHR 0x27]) desc))"
proof (intro conjI impI)
  assume "pni_sniff_header ext data = PNI_PROTOCOL_AMQP_SASL"
  then show "\<exists>t'. pn_input_read_sasl_header ext t layer data = Inr (Bytes 8, t')
               \<and> io_layers t' = (io_layers t)
                    [layer := (if io_layers t ! layer = sasl_read_header_layer
                               then sasl_layer else sasl_write_header_layer)]
               \<and> close_sent t' = close_sent t \<and> condition t' = condition t"
    by (rule read_sasl_header_sasl [OF t l])
next
  assume "pni_sniff_header ext data = PNI_PROTOCOL_INSUFFICIENT
            \<and> pn_transport_capacity ext t \<noteq> PN_EOS"
  then show "pn_input_read_sasl_header ext t layer data = Inr (Bytes 0, t)"
    using read_sasl_header_wait by blast
next
  assume "pni_sniff_header ext data = PNI_PROTOCOL_INSUFFICIENT
              \<and> pn_transport_capacity ext t = PN_EOS
            \<or> (\<exists>n. pni_sniff_header ext data = PNI_PROTOCOL_ANOTHER n)"
  from read_sasl_header_mismatch [OF this, of layer]
    header_mismatch_names_protocol header_mismatch_quotes_data
  show "\<exists>desc. pn_input_read_sasl_header ext t layer data =
                     Inr (PN_EOS,
                          pn_set_error_layer ext
                            (pn_do_error ext (t\<lparr>close_sent := True\<rparr>)
                               ''amqp:connection:framing-error'' desc))
             \<and> sublist (pni_protocol_name ext (pni_sniff_header ext data)) desc
             \<and> sublist ([CHR 0x27] @ pn_quote_data ext 1024 data @ [CHR 0x27]) desc"
    by blast
qed

text \<open>
  The literal \<^verbatim>\<open>SASL_HEADER\<close> of sasl.c.
\<close>

definition SASL_HEADER :: string where
  "SASL_HEADER = ''AMQP'' @ [CHR 0x03, CHR 0x01, CHR 0x00, CHR 0x00]"

text \<open>
  Modelled from the spec: stand-ins for the functions that are missing, for the examples.
  The sniffer reads 8 bytes and knows the SASL header only; the transport is not at EOS;
  an error is recorded as the condition of the transport; the quoting is the identity.
\<close>

definition example_ext :: transport_impl where
  "example_ext =
     \<lparr>pn_transport_capacity = (\<lambda>t. Bytes 16),
      pni_sniff_header = (\<lambda>d. if length d < 8 then PNI_PROTOCOL_INSUFFICIENT
                               else if take 8 d = SASL_HEADER then PNI_PROTOCOL_AMQP_SASL
                               else PNI_PROTOCOL_ANOTHER 1),
      pni_protocol_name = (\<lambda>p. case p of
                               PNI_PROTOCOL_AMQP_SASL \<Rightarrow> ''AMQP SASL layer''
                             | PNI_PROTOCOL_INSUFFICIENT \<Rightarrow> ''Insufficient data to determine protocol''
                             | PNI_PROTOCOL_ANOTHER _ \<Rightarrow> ''Unknown protocol''),
      pn_quote_data = (\<lambda>n d. d),
      pn_do_error = (\<lambda>t c d. t\<lparr>condition := Some \<lparr>name = c, description = d\<rparr>\<rparr>),
      pn_set_error_layer = (\<lambda>t. t\<lparr>io_layers := map (\<lambda>_. pni_error_layer) (io_layers t)\<rparr>),
      pn_ssl_get_ssf = (\<lambda>t. 0),
      pn_ssl_get_remote_subject = (\<lambda>t. None)\<rparr>"

theorem read_sasl_header_cases_witness:
  "sasl (pn_sasl (fresh_transport True)) = Some (fresh_context False)
   \<and> (0::nat) < length (io_layers (pn_sasl (fresh_transport True)))
   \<and> pni_sniff_header example_ext SASL_HEADER = PNI_PROTOCOL_AMQP_SASL
   \<and> (\<exists>t'. pn_input_read_sasl_header example_ext (pn_sasl (fresh_transport True)) 0 SASL_HEADER
              = Inr (Bytes 8, t')
          \<and> io_layers t' = [sasl_write_header_layer])
   \<and> pni_sniff_header example_ext ''AMQP'' = PNI_PROTOCOL_INSUFFICIENT
   \<and> pn_input_read_sasl_header example_ext (pn_sasl (fresh_transport True)) 0 ''AMQP''
       = Inr (Bytes 0, pn_sasl (fresh_transport True))
   \<and> pni_sniff_header example_ext ''HTTP/1.1'' = PNI_PROTOCOL_ANOTHER 1
   \<and> (\<exists>desc. pn_input_read_sasl_header example_ext (pn_sasl (fresh_transport True)) 0
                 ''HTTP/1.1''
               = Inr (PN_EOS,
                      (pn_sasl (fresh_transport True))
                        \<lparr>io_layers := [pni_error_layer], close_sent := True,
                         condition := Some \<lparr>name = ''amqp:connection:framing-error'',
                                              description = desc\<rparr>\<rparr>)
            \<and> sublist ''Unknown protocol'' desc
            \<and> sublist ([CHR 0x27] @ ''HTTP/1.1'' @ [CHR 0x27]) desc)"
proof -
  let ?t = "pn_sasl (fresh_transport True)"
  have s: "sasl ?t = Some (fresh_context False)"
    using sasl_fresh [of True] by simp
  have l: "(0::nat) < length (io_layers ?t)"
    and io: "io_layers ?t = [sasl_header_layer]"
    by (simp_all add: pn_sasl_def fresh_transport_def)
  have c: "pn_transport_capacity example_ext ?t \<noteq> PN_EOS"
    by (simp add: example_ext_def)
  have p1: "pni_sniff_header example_ext SASL_HEADER = PNI_PROTOCOL_AMQP_SASL"
    and p2: "pni_sniff_header example_ext ''AMQP'' = PNI_PROTOCOL_INSUFFICIENT"
    and p3: "pni_sniff_header example_ext ''HTTP/1.1'' = PNI_PROTOCOL_ANOTHER 1"
    by (simp_all add: example_ext_def SASL_HEADER_def)
  have q: "pn_quote_data example_ext 1024 ''HTTP/1.1'' = ''HTTP/1.1''"
    and n: "pni_protocol_name example_ext (PNI_PROTOCOL_ANOTHER 1) = ''Unknown protocol''"
    by (simp_all add: example_ext_def)
  have e: "\<And>desc. pn_set_error_layer example_ext
              (pn_do_error example_ext (?t\<lparr>close_sent := True\<rparr>)
                 ''amqp:connection:framing-error'' desc)
            = ?t\<lparr>io_layers := [pni_error_layer], close_sent := True,
                 condition := Some \<lparr>name = ''amqp:connection:framing-error'',
                                      description = desc\<rparr>\<rparr>"
    by (simp add: example_ext_def pn_sasl_def fresh_transport_def)
  from read_sasl_header_cases [OF s l, of example_ext SASL_HEADER] p1 io
  have a: "\<exists>t'. pn_input_read_sasl_header example_ext ?t 0 SASL_HEADER = Inr (Bytes 8, t')
          \<and> io_layers t' = [sasl_write_header_layer]"
    by auto
  from read_sasl_header_cases [OF s l, of example_ext "''AMQP''"] p2 c
  have b: "pn_input_read_sasl_header example_ext ?t 0 ''AMQP'' = Inr (Bytes 0, ?t)"
    by blast
  from read_sasl_header_cases [OF s l, of example_ext "''HTTP/1.1''"] p3
  have "\<exists>desc. pn_input_read_sasl_header example_ext ?t 0 ''HTTP/1.1'' =
                     Inr (PN_EOS,
                          pn_set_error_layer example_ext
                            (pn_do_error example_ext (?t\<lparr>close_sent := True\<rparr>)
                               ''amqp:connection:framing-error'' desc))
             \<and> sublist (pni_protocol_name example_ext (pni_sniff_header example_ext ''HTTP/1.1'')) desc
             \<and> sublist ([CHR 0x27] @ pn_quote_data example_ext 1024 ''HTTP/1.1'' @ [CHR 0x27]) desc"
    by blast
  then have d: "\<exists>desc. pn_input_read_sasl_header example_ext ?t 0 ''HTTP/1.1''
               = Inr (PN_EOS,
                      ?t\<lparr>io_layers := [pni_error_layer], close_sent := True,
                         condition := Some \<lparr>name = ''amqp:connection:framing-error'',
                                              description = desc\<rparr>\<rparr>)
            \<and> sublist ''Unknown protocol'' desc
            \<and> sublist ([CHR 0x27] @ ''HTTP/1.1'' @ [CHR 0x27]) desc"
    unfolding e p3 q n .
  from s l p1 a p2 b p3 d show ?thesis
    by blast
qed

section \<open>Properties of the mechanism filter\<close>

text \<open>
  The match of the specification: a symbol is listed when the allow-list holds, at its
  start or right after a space, a word equal to the symbol up to the case of letters,
  and the word is followed by a space or by the end of the list.
\<close>

definition same_letters :: "string \<Rightarrow> string \<Rightarrow> bool" where
  "same_letters a b \<longleftrightarrow> map tolower a = map tolower b"

definition listed_in :: "string \<Rightarrow> string \<Rightarrow> bool" where
  "listed_in l x \<longleftrightarrow>
     (\<exists>pre w post. l = pre @ w @ post \<and> same_letters w x
        \<and> (pre = [] \<or> last pre = CHR '' '')
        \<and> (post = [] \<or> hd post = CHR '' ''))"

lemma same_letters_length: "same_letters a b \<Longrightarrow> length a = length b"
  unfolding same_letters_def by (metis length_map)

lemma after_space_None: "after_space c = None \<longleftrightarrow> CHR '' '' \<notin> set c"
proof (cases "dropWhile (\<lambda>x. x \<noteq> CHR '' '') c")
  case Nil
  then have "CHR '' '' \<notin> set c"
    by (auto simp: dropWhile_eq_Nil_conv)
  then show ?thesis
    unfolding after_space_def Nil by simp
next
  case (Cons y ys)
  then have "y = CHR '' ''"
    using hd_dropWhile [of "\<lambda>x. x \<noteq> CHR '' ''" c] by auto
  with Cons have "CHR '' '' \<in> set (dropWhile (\<lambda>x. x \<noteq> CHR '' '') c)"
    by simp
  then have "CHR '' '' \<in> set c"
    by (rule set_dropWhileD)
  with Cons show ?thesis
    by (simp add: after_space_def)
qed

lemma after_space_Some:
  "after_space c = Some c' \<longleftrightarrow> (\<exists>u. c = u @ CHR '' '' # c' \<and> CHR '' '' \<notin> set u)"
proof
  assume "after_space c = Some c'"
  then obtain x where d: "dropWhile (\<lambda>x. x \<noteq> CHR '' '') c = x # c'"
    by (auto simp: after_space_def split: list.splits)
  then have "x = CHR '' ''"
    using hd_dropWhile [of "\<lambda>x. x \<noteq> CHR '' ''" c] by auto
  with d have "c = takeWhile (\<lambda>x. x \<noteq> CHR '' '') c @ CHR '' '' # c'"
    using takeWhile_dropWhile_id [of "\<lambda>x. x \<noteq> CHR '' ''" c] by simp
  moreover have "CHR '' '' \<notin> set (takeWhile (\<lambda>x. x \<noteq> CHR '' '') c)"
    using set_takeWhileD by fastforce
  ultimately show "\<exists>u. c = u @ CHR '' '' # c' \<and> CHR '' '' \<notin> set u"
    by blast
next
  assume "\<exists>u. c = u @ CHR '' '' # c' \<and> CHR '' '' \<notin> set u"
  then obtain u where u: "c = u @ CHR '' '' # c'" "CHR '' '' \<notin> set u"
    by blast
  then have "dropWhile (\<lambda>x. x \<noteq> CHR '' '') c = CHR '' '' # c'"
    by (simp add: dropWhile_append3 dropWhile_eq_Nil_conv [THEN iffD2] dropWhile_append)
  then show "after_space c = Some c'"
    by (simp add: after_space_def)
qed

text \<open>A match at the cursor is what the loop tests before it moves on.\<close>

lemma match_at_cursor:
  assumes nul: "NUL \<notin> set c" and len: "length x \<le> length c"
  shows "pn_strncasecmp c x (length x)
           \<and> (char_at c (length x) = CHR '' '' \<or> char_at c (length x) = NUL)
         \<longleftrightarrow> (\<exists>w post. c = w @ post \<and> same_letters w x
                \<and> (post = [] \<or> hd post = CHR '' ''))"
proof
  assume a: "pn_strncasecmp c x (length x)
           \<and> (char_at c (length x) = CHR '' '' \<or> char_at c (length x) = NUL)"
  let ?w = "take (length x) c" and ?post = "drop (length x) c"
  have "c = ?w @ ?post" by simp
  moreover from a have "same_letters ?w x"
    by (simp add: pn_strncasecmp_def same_letters_def)
  moreover have "?post = [] \<or> hd ?post = CHR '' ''"
  proof (cases "length x < length c")
    case True
    then have "c ! length x \<in> set c"
      by simp
    with nul have "c ! length x \<noteq> NUL"
      by metis
    with a True have "c ! length x = CHR '' ''"
      by (simp add: char_at_def)
    with True show ?thesis
      by (simp add: hd_drop_conv_nth)
  next
    case False
    then show ?thesis by simp
  qed
  ultimately show "\<exists>w post. c = w @ post \<and> same_letters w x
                \<and> (post = [] \<or> hd post = CHR '' '')"
    by blast
next
  assume "\<exists>w post. c = w @ post \<and> same_letters w x \<and> (post = [] \<or> hd post = CHR '' '')"
  then obtain w post where c: "c = w @ post" and s: "same_letters w x"
    and p: "post = [] \<or> hd post = CHR '' ''"
    by blast
  from s have l: "length w = length x"
    by (rule same_letters_length)
  from c l s have "pn_strncasecmp c x (length x)"
    by (simp add: pn_strncasecmp_def same_letters_def)
  moreover from p have "char_at c (length x) = CHR '' '' \<or> char_at c (length x) = NUL"
  proof
    assume "post = []"
    with c l show ?thesis by (simp add: char_at_def)
  next
    assume h: "hd post = CHR '' ''"
    show ?thesis
    proof (cases post)
      case Nil
      with c l show ?thesis by (simp add: char_at_def)
    next
      case (Cons y ys)
      with h c l show ?thesis
        by (simp add: char_at_def nth_append)
    qed
  qed
  ultimately show "pn_strncasecmp c x (length x)
           \<and> (char_at c (length x) = CHR '' '' \<or> char_at c (length x) = NUL)"
    by blast
qed

text \<open>A match further on lies behind the first space of the list.\<close>

lemma match_after_space:
  assumes "c = u @ CHR '' '' # c'" "CHR '' '' \<notin> set u"
  shows "(\<exists>pre w post. c = pre @ w @ post \<and> same_letters w x
            \<and> pre \<noteq> [] \<and> last pre = CHR '' '' \<and> (post = [] \<or> hd post = CHR '' ''))
         \<longleftrightarrow> listed_in c' x"
proof
  assume "\<exists>pre w post. c = pre @ w @ post \<and> same_letters w x
            \<and> pre \<noteq> [] \<and> last pre = CHR '' '' \<and> (post = [] \<or> hd post = CHR '' '')"
  then obtain pre w post where c: "c = pre @ w @ post" and s: "same_letters w x"
    and ne: "pre \<noteq> []" and la: "last pre = CHR '' ''"
    and p: "post = [] \<or> hd post = CHR '' ''"
    by blast
  from ne la obtain q where pre: "pre = q @ [CHR '' '']"
    by (metis append_butlast_last_id)
  have "\<not> length q < length u"
  proof
    assume "length q < length u"
    with c pre assms(1) have "u ! length q = CHR '' ''"
      by (metis append.assoc append_Cons nth_append nth_append_length)
    with \<open>length q < length u\<close> assms(2) show False
      by (metis nth_mem)
  qed
  then have "length u \<le> length q" by simp
  from c pre assms(1) have e: "u @ CHR '' '' # c' = q @ CHR '' '' # w @ post"
    by simp
  with \<open>length u \<le> length q\<close> obtain r where r: "q = u @ r"
    by (metis append_eq_append_conv_if append_take_drop_id)
  show "listed_in c' x"
  proof (cases r)
    case Nil
    with e r have "c' = [] @ w @ post" by simp
    with s p show ?thesis
      unfolding listed_in_def by blast
  next
    case (Cons y ys)
    with e r have "y = CHR '' ''" and "c' = (ys @ [CHR '' '']) @ w @ post"
      by simp_all
    with s p show ?thesis
      unfolding listed_in_def by (metis last_snoc)
  qed
next
  assume "listed_in c' x"
  then obtain pre w post where c': "c' = pre @ w @ post" and s: "same_letters w x"
    and b: "pre = [] \<or> last pre = CHR '' ''" and p: "post = [] \<or> hd post = CHR '' ''"
    unfolding listed_in_def by blast
  let ?pre = "u @ CHR '' '' # pre"
  from c' assms(1) have "c = ?pre @ w @ post" by simp
  moreover have "?pre \<noteq> []" by simp
  moreover from b have "last ?pre = CHR '' ''" by auto
  ultimately show "\<exists>pre w post. c = pre @ w @ post \<and> same_letters w x
            \<and> pre \<noteq> [] \<and> last pre = CHR '' '' \<and> (post = [] \<or> hd post = CHR '' '')"
    using s p by blast
qed

lemma listed_in_split:
  "listed_in c x \<longleftrightarrow>
     (\<exists>w post. c = w @ post \<and> same_letters w x \<and> (post = [] \<or> hd post = CHR '' ''))
   \<or> (\<exists>pre w post. c = pre @ w @ post \<and> same_letters w x
         \<and> pre \<noteq> [] \<and> last pre = CHR '' '' \<and> (post = [] \<or> hd post = CHR '' ''))"
proof
  assume "listed_in c x"
  then obtain pre w post where c: "c = pre @ w @ post" and s: "same_letters w x"
    and b: "pre = [] \<or> last pre = CHR '' ''" and p: "post = [] \<or> hd post = CHR '' ''"
    unfolding listed_in_def by blast
  show "(\<exists>w post. c = w @ post \<and> same_letters w x \<and> (post = [] \<or> hd post = CHR '' ''))
   \<or> (\<exists>pre w post. c = pre @ w @ post \<and> same_letters w x
         \<and> pre \<noteq> [] \<and> last pre = CHR '' '' \<and> (post = [] \<or> hd post = CHR '' ''))"
  proof (cases "pre = []")
    case True
    with c have "c = w @ post" by simp
    with s p show ?thesis by blast
  next
    case False
    with b have "last pre = CHR '' ''" by simp
    with False c s p show ?thesis by blast
  qed
next
  assume "(\<exists>w post. c = w @ post \<and> same_letters w x \<and> (post = [] \<or> hd post = CHR '' ''))
   \<or> (\<exists>pre w post. c = pre @ w @ post \<and> same_letters w x
         \<and> pre \<noteq> [] \<and> last pre = CHR '' '' \<and> (post = [] \<or> hd post = CHR '' ''))"
  then show "listed_in c x"
  proof
    assume "\<exists>w post. c = w @ post \<and> same_letters w x \<and> (post = [] \<or> hd post = CHR '' '')"
    then obtain w post where "c = [] @ w @ post" "same_letters w x"
      "post = [] \<or> hd post = CHR '' ''"
      by auto
    then show ?thesis
      unfolding listed_in_def by blast
  next
    assume "\<exists>pre w post. c = pre @ w @ post \<and> same_letters w x
         \<and> pre \<noteq> [] \<and> last pre = CHR '' '' \<and> (post = [] \<or> hd post = CHR '' '')"
    then show ?thesis
      unfolding listed_in_def by blast
  qed
qed

lemma included_mech_loop_listed:
  "NUL \<notin> set c \<Longrightarrow> included_mech_loop c x \<longleftrightarrow> listed_in c x"
proof (induction c x rule: included_mech_loop.induct)
  case (1 c s)
  show ?case
  proof (cases "length s > length c")
    case True
    have "\<not> listed_in c s"
    proof
      assume "listed_in c s"
      then obtain pre w post where "c = pre @ w @ post" "same_letters w s"
        unfolding listed_in_def by blast
      with True same_letters_length [of w s] show False by simp
    qed
    with True show ?thesis
      by (subst included_mech_loop.simps) simp
  next
    case fits: False
    then have le: "length s \<le> length c" by simp
    show ?thesis
    proof (cases "pn_strncasecmp c s (length s)
           \<and> (char_at c (length s) = CHR '' '' \<or> char_at c (length s) = NUL)")
      case True
      with match_at_cursor [OF "1.prems" le] have "listed_in c s"
        by (subst listed_in_split) blast
      with True fits show ?thesis
        by (subst included_mech_loop.simps) (auto simp: Let_def)
    next
      case no: False
      with match_at_cursor [OF "1.prems" le]
      have here: "\<not> (\<exists>w post. c = w @ post \<and> same_letters w s
                \<and> (post = [] \<or> hd post = CHR '' ''))"
        by blast
      show ?thesis
      proof (cases "after_space c")
        case None
        then have "CHR '' '' \<notin> set c"
          by (simp add: after_space_None)
        then have "\<not> (\<exists>pre w post. c = pre @ w @ post \<and> same_letters w s
            \<and> pre \<noteq> [] \<and> last pre = CHR '' '' \<and> (post = [] \<or> hd post = CHR '' ''))"
          by (metis last_in_set Un_iff set_append)
        with here have "\<not> listed_in c s"
          by (subst listed_in_split) blast
        with None no fits show ?thesis
          by (subst included_mech_loop.simps) (auto simp: Let_def)
      next
        case (Some c')
        then obtain u where u: "c = u @ CHR '' '' # c'" "CHR '' '' \<notin> set u"
          by (auto simp: after_space_Some)
        with "1.prems" have "NUL \<notin> set c'" by simp
        with "1.IH" [OF refl _ _ Some] fits no
        have ih: "included_mech_loop c' s \<longleftrightarrow> listed_in c' s"
          by simp
        from here match_after_space [OF u, of s] have "listed_in c s \<longleftrightarrow> listed_in c' s"
          by (subst listed_in_split) blast
        with ih Some no fits show ?thesis
          by (subst included_mech_loop.simps) (auto simp: Let_def)
      qed
    qed
  qed
qed

section \<open>Properties of the MECHANISMS handler\<close>

text \<open>
  A symbol as a C string: its bytes hold no NUL and a NUL follows them. \<open>symbol x\<close> is
  such a symbol with the bytes \<open>x\<close>.
\<close>

definition wellformed_symbol :: "pn_bytes_t \<Rightarrow> bool" where
  "wellformed_symbol s \<longleftrightarrow> NUL \<notin> set (content s) \<and> following s \<noteq> [] \<and> hd (following s) = NUL"

definition symbol :: "string \<Rightarrow> pn_bytes_t" where
  "symbol x = \<lparr>content = x, following = [NUL]\<rparr>"

text \<open>The words of a list, separated by single spaces.\<close>

fun join_spaced :: "string list \<Rightarrow> string" where
  "join_spaced [] = []"
| "join_spaced [w] = w"
| "join_spaced (w # v # ws) = w @ '' '' @ join_spaced (v # ws)"

lemma takeWhile_to_nul:
  "NUL \<notin> set xs \<Longrightarrow> takeWhile (\<lambda>x. x \<noteq> NUL) (xs @ NUL # ys) = xs"
  by (induction xs) auto

lemma addf_wellformed:
  assumes "wellformed_symbol s"
  shows "pn_string_addf mechs s = Inr (mechs @ content s @ '' '')"
proof -
  from assms obtain rest where f: "following s = NUL # rest" and n: "NUL \<notin> set (content s)"
    unfolding wellformed_symbol_def by (cases "following s") auto
  from n have "takeWhile (\<lambda>x. x \<noteq> NUL) (content s @ NUL # rest) = content s"
    by (rule takeWhile_to_nul)
  with f show ?thesis
    by (simp add: pn_string_addf_def Let_def)
qed

lemma collect_wellformed:
  assumes "\<forall>s \<in> set symbols. wellformed_symbol s"
  shows "collect_mechs included symbols mechs =
           Inr (mechs @ concat (map (\<lambda>s. content s @ '' '')
                                  (filter (pni_included_mech included) symbols)))"
  using assms
proof (induction symbols arbitrary: mechs)
  case Nil
  then show ?case by simp
next
  case (Cons s rest)
  then have w: "wellformed_symbol s" and r: "\<forall>s \<in> set rest. wellformed_symbol s"
    by simp_all
  show ?case
  proof (cases "pni_included_mech included s")
    case True
    with Cons.IH [OF r, of "mechs @ content s @ '' ''"] addf_wellformed [OF w, of mechs]
    show ?thesis by simp
  next
    case False
    with Cons.IH [OF r, of mechs] show ?thesis by simp
  qed
qed

lemma concat_spaced:
  "concat (map (\<lambda>w. w @ '' '') ws) = (if ws = [] then [] else join_spaced ws @ '' '')"
  by (induction ws rule: join_spaced.induct) simp_all

lemma join_spaced_no_nul:
  "\<forall>w \<in> set ws. NUL \<notin> set w \<Longrightarrow> NUL \<notin> set (join_spaced ws)"
  by (induction ws rule: join_spaced.induct) (simp_all add: NUL_def)

text \<open>
  The string the backend is offered: the last character of the collected string is
  overwritten with NUL and the buffer is read as a C string.
\<close>

lemma offered_string:
  assumes "\<forall>w \<in> set ws. NUL \<notin> set w"
  shows "pn_string_get
           (let mechs = concat (map (\<lambda>w. w @ '' '') ws)
            in if length mechs \<noteq> 0 then mechs[length mechs - 1 := NUL] else mechs)
         = join_spaced ws"
proof (cases "ws = []")
  case True
  then show ?thesis
    by (simp add: pn_string_get_def)
next
  case False
  then have c: "concat (map (\<lambda>w. w @ '' '') ws) = join_spaced ws @ '' ''"
    by (simp add: concat_spaced)
  have "(join_spaced ws @ '' '')[length (join_spaced ws @ '' '') - 1 := NUL]
          = join_spaced ws @ [NUL]"
    by simp
  moreover have "takeWhile (\<lambda>x. x \<noteq> NUL) (join_spaced ws @ [NUL]) = join_spaced ws"
    using join_spaced_no_nul [OF assms] by (rule takeWhile_to_nul)
  ultimately show ?thesis
    unfolding c by (simp add: pn_string_get_def Let_def)
qed

text \<open>What the handler does with the answer of the backend.\<close>

lemma do_mechanisms_unfold:
  assumes "sasl t = Some s" "last_state s \<noteq> SASL_PRETEND_OUTCOME"
    and "collect_mechs (included_mechanisms s) symbols [] = Inr mechs"
    and "pn_string_get (if length mechs \<noteq> 0 then mechs[length mechs - 1 := NUL] else mechs)
           = offered"
  shows "pn_do_mechanisms ev impl t (Inr symbols) =
     (case init_and_process impl t offered of
        (ok, t2) \<Rightarrow>
          (case (if ok then pni_sasl_set_desired_state ev t2 SASL_POSTED_INIT
                 else (case sasl t2 of
                         None \<Rightarrow> Inl Null_dereference
                       | Some s2 \<Rightarrow>
                           pni_sasl_set_desired_state ev
                             (t2\<lparr>sasl := Some (s2\<lparr>outcome := PN_SASL_PERM\<rparr>)\<rparr>)
                             SASL_RECVED_OUTCOME)) of
             Inl u \<Rightarrow> Inl u
           | Inr t3 \<Rightarrow> Inr (0, t3)))"
  using assms unfolding pn_do_mechanisms_def
  by (simp add: Let_def)

lemma do_mechanisms_offers:
  assumes t: "sasl t = Some s" and p: "last_state s \<noteq> SASL_PRETEND_OUTCOME"
    and w: "\<forall>x \<in> set symbols. wellformed_symbol x"
  shows "pn_do_mechanisms ev impl t (Inr symbols) =
     (case init_and_process impl t
             (join_spaced (map content
                (filter (pni_included_mech (included_mechanisms s)) symbols))) of
        (ok, t2) \<Rightarrow>
          (case (if ok then pni_sasl_set_desired_state ev t2 SASL_POSTED_INIT
                 else (case sasl t2 of
                         None \<Rightarrow> Inl Null_dereference
                       | Some s2 \<Rightarrow>
                           pni_sasl_set_desired_state ev
                             (t2\<lparr>sasl := Some (s2\<lparr>outcome := PN_SASL_PERM\<rparr>)\<rparr>)
                             SASL_RECVED_OUTCOME)) of
             Inl u \<Rightarrow> Inl u
           | Inr t3 \<Rightarrow> Inr (0, t3)))"
proof -
  let ?kept = "filter (pni_included_mech (included_mechanisms s)) symbols"
  let ?mechs = "concat (map (\<lambda>s. content s @ '' '') ?kept)"
  from w have n: "\<forall>w \<in> set (map content ?kept). NUL \<notin> set w"
    by (auto simp: wellformed_symbol_def)
  have m: "map (\<lambda>s. content s @ '' '') ?kept = map (\<lambda>w. w @ '' '') (map content ?kept)"
    by simp
  from offered_string [OF n]
  have o: "pn_string_get (if length ?mechs \<noteq> 0 then ?mechs[length ?mechs - 1 := NUL] else ?mechs)
         = join_spaced (map content ?kept)"
    unfolding m Let_def .
  from collect_wellformed [OF w, of "included_mechanisms s" "[]"]
  have c: "collect_mechs (included_mechanisms s) symbols [] = Inr ?mechs"
    by simp
  show ?thesis
    by (rule do_mechanisms_unfold [OF t p c o])
qed

lemma included_mech_listed:
  assumes "\<forall>l. included = Some l \<longrightarrow> NUL \<notin> set l"
  shows "pni_included_mech included x \<longleftrightarrow>
           (case included of None \<Rightarrow> True | Some l \<Rightarrow> listed_in l (content x))"
  using assms
  by (cases included) (simp_all add: pni_included_mech_def included_mech_loop_listed)

lemma do_mechanisms_ignored:
  assumes "sasl t = Some s" "last_state s = SASL_PRETEND_OUTCOME"
  shows "pn_do_mechanisms ev impl t args = Inr (0, t)"
  using assms by (simp add: pn_do_mechanisms_def)

lemma client_legal:
  "client s \<Longrightarrow> legal_for_role (client s) SASL_POSTED_INIT
                \<and> legal_for_role (client s) SASL_RECVED_OUTCOME"
  by (simp add: legal_for_role_def pni_sasl_is_client_state_def)

lemma request_init_applied:
  assumes "sasl t2 = Some s2" "client s2" "\<not> ev SASL_POSTED_INIT < ev (last_state s2)"
  shows "\<exists>t3. pni_sasl_set_desired_state ev t2 SASL_POSTED_INIT = Inr t3
           \<and> sasl t3 = Some (s2\<lparr>desired_state := SASL_POSTED_INIT\<rparr>)"
  using set_desired_state_applies [OF assms(1,3)] client_legal [OF assms(2)]
  by (simp add: rewound_def)

lemma request_recved_applied:
  assumes "sasl t2 = Some s2" "client s2" "\<not> ev SASL_RECVED_OUTCOME < ev (last_state s2)"
  shows "\<exists>t3. pni_sasl_set_desired_state ev
                 (t2\<lparr>sasl := Some (s2\<lparr>outcome := PN_SASL_PERM\<rparr>)\<rparr>) SASL_RECVED_OUTCOME = Inr t3
           \<and> sasl t3 = Some (s2\<lparr>outcome := PN_SASL_PERM,
                                desired_state := SASL_RECVED_OUTCOME\<rparr>)"
proof -
  let ?s = "s2\<lparr>outcome := PN_SASL_PERM\<rparr>"
  let ?t = "t2\<lparr>sasl := Some ?s\<rparr>"
  have a: "sasl ?t = Some ?s" by simp
  from assms(3) have b: "\<not> ev SASL_RECVED_OUTCOME < ev (last_state ?s)" by simp
  from assms(2) have c: "legal_for_role (client ?s) SASL_RECVED_OUTCOME"
    by (simp add: legal_for_role_def pni_sasl_is_client_state_def)
  from set_desired_state_applies [OF a b c] show ?thesis
    by (simp add: rewound_def)
qed

text \<open>
  C5, as amended. A context whose \<^verbatim>\<open>last_state\<close> is \<^verbatim>\<open>SASL_PRETEND_OUTCOME\<close> ignores
  the frame. Otherwise, for symbols held as C strings and an allow-list that is a C
  string: a symbol is kept exactly when the allow-list is absent or lists it (up to the
  case of letters, at the start or after a space, followed by a space or the end); the
  backend is offered the kept symbols joined by single spaces, and the call is
  determined by its answer to that string. On success
  \<^verbatim>\<open>pni_sasl_set_desired_state(SASL_POSTED_INIT)\<close> is requested: the desired state
  becomes \<^verbatim>\<open>SASL_POSTED_INIT\<close> when the context is a client whose \<^verbatim>\<open>last_state\<close> is not
  above it, and otherwise the request is dropped with a log line. On failure the outcome
  becomes PERM and \<^verbatim>\<open>SASL_RECVED_OUTCOME\<close> is requested, which a client whose
  \<^verbatim>\<open>last_state\<close> is not above it obtains.
\<close>

theorem mechanisms_frame_handled:
  assumes t: "sasl t = Some s"
    and w: "\<forall>x \<in> set symbols. wellformed_symbol x"
    and l: "\<forall>l. included_mechanisms s = Some l \<longrightarrow> NUL \<notin> set l"
    and o: "offered = join_spaced (map content
              (filter (pni_included_mech (included_mechanisms s)) symbols))"
  shows "(last_state s = SASL_PRETEND_OUTCOME \<longrightarrow>
            pn_do_mechanisms ev impl t args = Inr (0, t))
       \<and> (\<forall>x \<in> set symbols.
            pni_included_mech (included_mechanisms s) x \<longleftrightarrow>
              (case included_mechanisms s of
                 None \<Rightarrow> True
               | Some l \<Rightarrow> listed_in l (content x)))
       \<and> (last_state s \<noteq> SASL_PRETEND_OUTCOME \<longrightarrow>
            pn_do_mechanisms ev impl t (Inr symbols) =
              (case init_and_process impl t offered of
                 (ok, t2) \<Rightarrow>
                   (case (if ok then pni_sasl_set_desired_state ev t2 SASL_POSTED_INIT
                          else (case sasl t2 of
                                  None \<Rightarrow> Inl Null_dereference
                                | Some s2 \<Rightarrow>
                                    pni_sasl_set_desired_state ev
                                      (t2\<lparr>sasl := Some (s2\<lparr>outcome := PN_SASL_PERM\<rparr>)\<rparr>)
                                      SASL_RECVED_OUTCOME)) of
                      Inl u \<Rightarrow> Inl u
                    | Inr t3 \<Rightarrow> Inr (0, t3)))
          \<and> (\<forall>t2 s2. init_and_process impl t offered = (True, t2) \<and> sasl t2 = Some s2
                 \<and> client s2 \<and> \<not> ev SASL_POSTED_INIT < ev (last_state s2) \<longrightarrow>
               (\<exists>t3. pn_do_mechanisms ev impl t (Inr symbols) = Inr (0, t3)
                  \<and> sasl t3 = Some (s2\<lparr>desired_state := SASL_POSTED_INIT\<rparr>)))
          \<and> (\<forall>t2 s2. init_and_process impl t offered = (True, t2) \<and> sasl t2 = Some s2
                 \<and> (\<not> client s2 \<or> ev SASL_POSTED_INIT < ev (last_state s2)) \<longrightarrow>
               (\<exists>line. pn_do_mechanisms ev impl t (Inr symbols)
                  = Inr (0, t2\<lparr>log := log t2 @ [line]\<rparr>)))
          \<and> (\<forall>t2 s2. init_and_process impl t offered = (False, t2) \<and> sasl t2 = Some s2
                 \<and> client s2 \<and> \<not> ev SASL_RECVED_OUTCOME < ev (last_state s2) \<longrightarrow>
               (\<exists>t3. pn_do_mechanisms ev impl t (Inr symbols) = Inr (0, t3)
                  \<and> sasl t3 = Some (s2\<lparr>outcome := PN_SASL_PERM,
                                       desired_state := SASL_RECVED_OUTCOME\<rparr>))))"
proof (intro conjI impI allI ballI)
  assume "last_state s = SASL_PRETEND_OUTCOME"
  with t show "pn_do_mechanisms ev impl t args = Inr (0, t)"
    by (rule do_mechanisms_ignored)
next
  fix x
  show "pni_included_mech (included_mechanisms s) x \<longleftrightarrow>
          (case included_mechanisms s of None \<Rightarrow> True | Some l \<Rightarrow> listed_in l (content x))"
    by (rule included_mech_listed [OF l])
next
  assume p: "last_state s \<noteq> SASL_PRETEND_OUTCOME"
  show "pn_do_mechanisms ev impl t (Inr symbols) =
              (case init_and_process impl t offered of
                 (ok, t2) \<Rightarrow>
                   (case (if ok then pni_sasl_set_desired_state ev t2 SASL_POSTED_INIT
                          else (case sasl t2 of
                                  None \<Rightarrow> Inl Null_dereference
                                | Some s2 \<Rightarrow>
                                    pni_sasl_set_desired_state ev
                                      (t2\<lparr>sasl := Some (s2\<lparr>outcome := PN_SASL_PERM\<rparr>)\<rparr>)
                                      SASL_RECVED_OUTCOME)) of
                      Inl u \<Rightarrow> Inl u
                    | Inr t3 \<Rightarrow> Inr (0, t3)))"
    unfolding o by (rule do_mechanisms_offers [OF t p w])
next
  fix t2 s2
  assume p: "last_state s \<noteq> SASL_PRETEND_OUTCOME"
    and a: "init_and_process impl t offered = (True, t2) \<and> sasl t2 = Some s2
                 \<and> client s2 \<and> \<not> ev SASL_POSTED_INIT < ev (last_state s2)"
  then obtain t3 where "pni_sasl_set_desired_state ev t2 SASL_POSTED_INIT = Inr t3"
    "sasl t3 = Some (s2\<lparr>desired_state := SASL_POSTED_INIT\<rparr>)"
    using request_init_applied [of t2 s2 ev] by blast
  with a do_mechanisms_offers [OF t p w, of ev impl]
  show "\<exists>t3. pn_do_mechanisms ev impl t (Inr symbols) = Inr (0, t3)
                  \<and> sasl t3 = Some (s2\<lparr>desired_state := SASL_POSTED_INIT\<rparr>)"
    unfolding o by simp
next
  fix t2 s2
  assume p: "last_state s \<noteq> SASL_PRETEND_OUTCOME"
    and a: "init_and_process impl t offered = (True, t2) \<and> sasl t2 = Some s2
                 \<and> (\<not> client s2 \<or> ev SASL_POSTED_INIT < ev (last_state s2))"
  then have "ev SASL_POSTED_INIT < ev (last_state s2)
      \<or> \<not> legal_for_role (client s2) SASL_POSTED_INIT"
    by (auto simp: legal_for_role_def pni_sasl_is_server_state_def)
  with a obtain line where
    "pni_sasl_set_desired_state ev t2 SASL_POSTED_INIT = Inr (t2\<lparr>log := log t2 @ [line]\<rparr>)"
    using set_desired_state_rejects [of t2 s2 ev SASL_POSTED_INIT] by blast
  with a do_mechanisms_offers [OF t p w, of ev impl]
  have "pn_do_mechanisms ev impl t (Inr symbols) = Inr (0, t2\<lparr>log := log t2 @ [line]\<rparr>)"
    unfolding o by simp
  then show "\<exists>line. pn_do_mechanisms ev impl t (Inr symbols)
                  = Inr (0, t2\<lparr>log := log t2 @ [line]\<rparr>)"
    by (rule exI)
next
  fix t2 s2
  assume p: "last_state s \<noteq> SASL_PRETEND_OUTCOME"
    and a: "init_and_process impl t offered = (False, t2) \<and> sasl t2 = Some s2
                 \<and> client s2 \<and> \<not> ev SASL_RECVED_OUTCOME < ev (last_state s2)"
  then obtain t3 where "pni_sasl_set_desired_state ev
        (t2\<lparr>sasl := Some (s2\<lparr>outcome := PN_SASL_PERM\<rparr>)\<rparr>) SASL_RECVED_OUTCOME = Inr t3"
    "sasl t3 = Some (s2\<lparr>outcome := PN_SASL_PERM, desired_state := SASL_RECVED_OUTCOME\<rparr>)"
    using request_recved_applied [of t2 s2 ev] by blast
  with a do_mechanisms_offers [OF t p w, of ev impl]
  show "\<exists>t3. pn_do_mechanisms ev impl t (Inr symbols) = Inr (0, t3)
                  \<and> sasl t3 = Some (s2\<lparr>outcome := PN_SASL_PERM,
                                       desired_state := SASL_RECVED_OUTCOME\<rparr>)"
    unfolding o by simp
qed


text \<open>
  A client that allows PLAIN and ANONYMOUS, and a backend that accepts every offer that
  is not empty and records the offered string as the selected mechanism.
\<close>

definition allowing_context :: pni_sasl_t where
  "allowing_context = (fresh_context True)\<lparr>included_mechanisms := Some ''PLAIN ANONYMOUS''\<rparr>"

definition allowing_client :: pn_transport_t where
  "allowing_client = (pn_sasl (fresh_transport False))\<lparr>sasl := Some allowing_context\<rparr>"

definition recording_impl :: sasl_impl where
  "recording_impl =
     \<lparr>pni_sasl_impl_list_mechs = (\<lambda>t. (0, None)),
      pni_init_client = (\<lambda>t. (True, t)),
      pni_process_mechanisms =
        (\<lambda>t mechs. (mechs \<noteq> [],
           (case sasl t of
              None \<Rightarrow> t
            | Some s \<Rightarrow> t\<lparr>sasl := Some (s\<lparr>selected_mechanism := Some mechs\<rparr>)\<rparr>)))\<rparr>"

lemma advertised_filter:
  "filter (pni_included_mech (Some ''PLAIN ANONYMOUS''))
     [symbol ''GSSAPI'', symbol ''PLAIN'', symbol ''ANONYMOUS'']
   = [symbol ''PLAIN'', symbol ''ANONYMOUS'']"
proof -
  have "\<not> pni_included_mech (Some ''PLAIN ANONYMOUS'') (symbol ''GSSAPI'')"
    "pni_included_mech (Some ''PLAIN ANONYMOUS'') (symbol ''PLAIN'')"
    "pni_included_mech (Some ''PLAIN ANONYMOUS'') (symbol ''ANONYMOUS'')"
    by code_simp+
  then show ?thesis by simp
qed

theorem mechanisms_frame_handled_witness:
  "sasl allowing_client = Some allowing_context
   \<and> last_state allowing_context \<noteq> SASL_PRETEND_OUTCOME
   \<and> wellformed_symbol (symbol ''GSSAPI'') \<and> wellformed_symbol (symbol ''PLAIN'')
   \<and> wellformed_symbol (symbol ''ANONYMOUS'')
   \<and> join_spaced (map content
        (filter (pni_included_mech (included_mechanisms allowing_context))
           [symbol ''GSSAPI'', symbol ''PLAIN'', symbol ''ANONYMOUS'']))
      = ''PLAIN ANONYMOUS''
   \<and> init_and_process recording_impl allowing_client ''PLAIN ANONYMOUS''
      = (True, allowing_client\<lparr>sasl := Some
           (allowing_context\<lparr>selected_mechanism := Some ''PLAIN ANONYMOUS''\<rparr>)\<rparr>)
   \<and> (\<exists>t3. pn_do_mechanisms listed_value recording_impl allowing_client
               (Inr [symbol ''GSSAPI'', symbol ''PLAIN'', symbol ''ANONYMOUS'']) = Inr (0, t3)
          \<and> sasl t3 = Some (allowing_context\<lparr>selected_mechanism := Some ''PLAIN ANONYMOUS'',
                                               desired_state := SASL_POSTED_INIT\<rparr>))"
proof -
  let ?symbols = "[symbol ''GSSAPI'', symbol ''PLAIN'', symbol ''ANONYMOUS'']"
  let ?s2 = "allowing_context\<lparr>selected_mechanism := Some ''PLAIN ANONYMOUS''\<rparr>"
  let ?t2 = "allowing_client\<lparr>sasl := Some ?s2\<rparr>"
  have s: "sasl allowing_client = Some allowing_context"
    by (simp add: allowing_client_def)
  have p: "last_state allowing_context \<noteq> SASL_PRETEND_OUTCOME"
    and i: "included_mechanisms allowing_context = Some ''PLAIN ANONYMOUS''"
    and c: "client ?s2"
    and n: "\<not> listed_value SASL_POSTED_INIT < listed_value (last_state ?s2)"
    by (simp_all add: allowing_context_def fresh_context_def)
  have w1: "wellformed_symbol (symbol ''GSSAPI'')"
    and w2: "wellformed_symbol (symbol ''PLAIN'')"
    and w3: "wellformed_symbol (symbol ''ANONYMOUS'')"
    by (simp_all add: wellformed_symbol_def symbol_def NUL_def)
  then have w: "\<forall>x \<in> set ?symbols. wellformed_symbol x"
    by simp
  have l: "\<forall>l. included_mechanisms allowing_context = Some l \<longrightarrow> NUL \<notin> set l"
    by (simp add: i NUL_def)
  have o: "''PLAIN ANONYMOUS'' = join_spaced (map content
        (filter (pni_included_mech (included_mechanisms allowing_context)) ?symbols))"
    unfolding i advertised_filter by (simp add: symbol_def)
  have b: "init_and_process recording_impl allowing_client ''PLAIN ANONYMOUS'' = (True, ?t2)"
    by (simp add: init_and_process_def recording_impl_def s)
  have s2: "sasl ?t2 = Some ?s2"
    by simp
  from mechanisms_frame_handled [OF s w l o, of listed_value recording_impl] p b s2 c n
  have "\<exists>t3. pn_do_mechanisms listed_value recording_impl allowing_client (Inr ?symbols)
               = Inr (0, t3)
          \<and> sasl t3 = Some (?s2\<lparr>desired_state := SASL_POSTED_INIT\<rparr>)"
    by blast
  with s p w1 w2 w3 o b show ?thesis
    by simp
qed

text \<open>
  The claim as stated fails: a client that has already posted its RESPONSE and receives
  a MECHANISMS frame which the backend accepts keeps \<^verbatim>\<open>SASL_POSTED_RESPONSE\<close> as its
  desired state; the request for \<^verbatim>\<open>SASL_POSTED_INIT\<close> is dropped as a downgrade.
\<close>

theorem mechanisms_after_response_keeps_state:
  "client responded_context
   \<and> last_state responded_context = SASL_POSTED_RESPONSE
   \<and> desired_state responded_context = SASL_POSTED_RESPONSE
   \<and> init_and_process accepting_impl responded_client ''PLAIN'' = (True, responded_client)
   \<and> pn_do_mechanisms listed_value accepting_impl responded_client (Inr [symbol ''PLAIN''])
      = Inr (0, responded_client\<lparr>log :=
          [(''Trying to send SASL frame (%d), but illegal: already in later state (%d)'',
            [State SASL_POSTED_INIT, State SASL_POSTED_RESPONSE])]\<rparr>)
   \<and> sasl (responded_client\<lparr>log :=
          [(''Trying to send SASL frame (%d), but illegal: already in later state (%d)'',
            [State SASL_POSTED_INIT, State SASL_POSTED_RESPONSE])]\<rparr>)
      = Some responded_context"
proof -
  have s: "sasl responded_client = Some responded_context"
    by (simp add: responded_client_def)
  have f: "client responded_context" "last_state responded_context = SASL_POSTED_RESPONSE"
    "desired_state responded_context = SASL_POSTED_RESPONSE"
    "included_mechanisms responded_context = None"
    "last_state responded_context \<noteq> SASL_PRETEND_OUTCOME"
    by (simp_all add: responded_context_def fresh_context_def)
  have w: "\<forall>x \<in> set [symbol ''PLAIN'']. wellformed_symbol x"
    by (simp add: wellformed_symbol_def symbol_def NUL_def)
  have b: "init_and_process accepting_impl responded_client ''PLAIN'' = (True, responded_client)"
    by (simp add: init_and_process_def accepting_impl_def)
  have g: "log responded_client = []"
    by (simp add: responded_client_def pn_sasl_def fresh_transport_def)
  have r: "pni_sasl_set_desired_state listed_value responded_client SASL_POSTED_INIT
      = Inr (responded_client\<lparr>log :=
          [(''Trying to send SASL frame (%d), but illegal: already in later state (%d)'',
            [State SASL_POSTED_INIT, State SASL_POSTED_RESPONSE])]\<rparr>)"
    using s f g by (simp add: pni_sasl_set_desired_state_def pn_transport_logf_def)
  have "pn_do_mechanisms listed_value accepting_impl responded_client (Inr [symbol ''PLAIN''])
      = Inr (0, responded_client\<lparr>log :=
          [(''Trying to send SASL frame (%d), but illegal: already in later state (%d)'',
            [State SASL_POSTED_INIT, State SASL_POSTED_RESPONSE])]\<rparr>)"
    using do_mechanisms_offers [OF s f(5) w, of listed_value accepting_impl] f(4) b r
    by (simp add: pni_included_mech_def symbol_def)
  with s f b show ?thesis
    by simp
qed

end
